theory Spec2Isabelle
  imports Main "HOL-Library.Word" "HOL-Library.List_Lexorder" "HOL-Library.Char_ord" "HOL-Library.Multiset"
begin

unbundle bit_operations_syntax

section \<open>JavaScript numbers\<close>

text \<open>
  The consensus module computes with JavaScript Numbers (IEEE 754 binary64). A non-negative
  finite double is carried as a pair \<open>(m, e)\<close> standing for \<open>m * 2 ^ e\<close>. Every value
  that occurs below lies far inside the normal range, so subnormals and overflow are
  not modelled. \<open>toDouble n d\<close> is the double nearest to the exact quotient \<open>n / d\<close>
  (round to nearest, ties to even, 53 significant bits).
\<close>

type_synonym double = "int \<times> int"

fun bitlen :: "int \<Rightarrow> nat" where
  "bitlen n = (if n \<le> 0 then 0 else Suc (bitlen (n div 2)))"

declare bitlen.simps [simp del]

definition rne_div :: "int \<Rightarrow> int \<Rightarrow> int" where
  "rne_div a b =
     (let q = a div b; r = a mod b
      in if 2 * r < b then q
         else if b < 2 * r then q + 1
         else if even q then q else q + 1)"

definition scaled :: "int \<Rightarrow> int \<Rightarrow> int \<Rightarrow> int \<times> int" where
  "scaled n d e = (if e \<le> 0 then (n * 2 ^ nat (- e), d) else (n, d * 2 ^ nat e))"

definition toDouble :: "int \<Rightarrow> int \<Rightarrow> double" where
  "toDouble n d =
     (if n = 0 then (0, 0)
      else
        let e0 = int (bitlen n) - int (bitlen d) - 53;
            e = (if 2 ^ 53 * snd (scaled n d e0) \<le> fst (scaled n d e0) then e0 + 1 else e0)
        in (rne_div (fst (scaled n d e)) (snd (scaled n d e)), e))"

definition double_of_int :: "int \<Rightarrow> double" where
  "double_of_int n = (n, 0)"

definition double_mul :: "double \<Rightarrow> double \<Rightarrow> double" where
  "double_mul x y =
     (let m = fst x * fst y; e = snd x + snd y
      in if 0 \<le> e then toDouble (m * 2 ^ nat e) 1 else toDouble m (2 ^ nat (- e)))"

definition double_floor :: "double \<Rightarrow> int" where
  "double_floor x = (if 0 \<le> snd x then fst x * 2 ^ nat (snd x) else fst x div 2 ^ nat (- snd x))"

text \<open>\<open>x | 0\<close> on a positive double: truncate, then wrap to a signed 32-bit integer.\<close>

definition toInt32 :: "double \<Rightarrow> int" where
  "toInt32 x = sint (word_of_int (double_floor x) :: 32 word)"

section \<open>Consensus constants\<close>

text \<open>\<open>COIN = Math.pow(10, EXP)\<close>, a power that is exact in double precision.\<close>

definition EXP :: nat where
  "EXP = 6"

definition COIN :: int where
  "COIN = 10 ^ EXP"

definition BASE_REWARD :: int where
  "BASE_REWARD = 1000 * COIN"

text \<open>
  \<open>BASE_REWARD + ((4.42 * COIN) | 0)\<close>: the literal \<open>4.42\<close> is the double nearest to
  442/100, the product is rounded to a double, \<open>| 0\<close> truncates it, and the final sum of
  two integers below \<open>2 ^ 53\<close> is exact.
\<close>

definition GENESIS_REWARD :: int where
  "GENESIS_REWARD = BASE_REWARD + toInt32 (double_mul (toDouble 442 100) (double_of_int COIN))"

section \<open>Big numbers\<close>

text \<open>
  A \<open>BN\<close> of the bn.js library is an arbitrary-precision integer in sign-magnitude form
  without a negative zero: an \<open>int\<close>. The operations used by the consensus code:
  \<open>bitLength\<close> and \<open>byteLength\<close> measure the magnitude, \<open>ushrn\<close> shifts the magnitude
  and keeps the sign, \<open>new BN(buffer, 'be')\<close> reads bytes as a big-endian number.
\<close>

type_synonym u8 = "8 word"
type_synonym u32 = "32 word"

definition bitLength :: "int \<Rightarrow> nat" where
  "bitLength n = bitlen \<bar>n\<bar>"

definition byteLength :: "int \<Rightarrow> nat" where
  "byteLength n = (bitLength n + 7) div 8"

definition ushrn :: "int \<Rightarrow> nat \<Rightarrow> int" where
  "ushrn n k = sgn n * (\<bar>n\<bar> div 2 ^ k)"

definition BN_be :: "u8 list \<Rightarrow> int" where
  "BN_be bs = foldl (\<lambda>acc b. acc * 256 + uint b) 0 bs"

section \<open>Compact targets and proof of work\<close>

text \<open>
  \<open>fromCompact\<close>: the compact number is a u32; \<open>>>>\<close> and \<open>&\<close> are the 32-bit
  operations of JavaScript, \<open>iushln\<close> is the shift of a big number.
\<close>

definition fromCompact :: "u32 \<Rightarrow> int" where
  "fromCompact compact =
     (if compact = 0 then 0
      else
        let exponent = unat (drop_bit 24 compact);
            negative = drop_bit 23 compact AND 1;
            mantissa = compact AND 0x7fffff;
            num = (if exponent \<le> 3
                   then uint (drop_bit (8 * (3 - exponent)) mantissa)
                   else push_bit (8 * (exponent - 3)) (uint mantissa))
        in if negative \<noteq> 0 then - num else num)"

text \<open>
  \<open>toCompact\<close>: \<open>toNumber\<close> yields a signed Number of at most three bytes; the shifts
  and masks that follow act on its 32-bit two's complement image, and the final
  \<open>>>>= 0\<close> reads the result as a u32.
\<close>

definition toCompact :: "int \<Rightarrow> u32" where
  "toCompact num =
     (if num = 0 then 0
      else
        let exponent = byteLength num;
            mantissa = (if exponent \<le> 3
                        then push_bit (8 * (3 - exponent)) (word_of_int num :: u32)
                        else word_of_int (ushrn num (8 * (exponent - 3))));
            carry = (mantissa AND 0x800000 \<noteq> 0);
            mantissa' = (if carry then drop_bit 8 mantissa else mantissa);
            exponent' = (if carry then exponent + 1 else exponent);
            compact = push_bit 24 (word_of_nat exponent') OR mantissa'
        in if num < 0 then compact OR 0x800000 else compact)"

definition verifyPOW :: "u8 list \<Rightarrow> u32 \<Rightarrow> bool" where
  "verifyPOW hash bits =
     (let target = fromCompact bits
      in if target < 0 \<or> target = 0 then False
         else if bitLength target > 256 then False
         else if BN_be hash > target then False
         else True)"

section \<open>The block subsidy\<close>

text \<open>
  A Number is a finite double, \<open>Infinity\<close> or \<open>NaN\<close> (only non-negative values occur
  here). Division follows IEEE 754: a non-zero value over zero is \<open>Infinity\<close>, zero over
  zero is \<open>NaN\<close>, and a finite quotient is rounded to the nearest double.
\<close>

datatype number = Finite double | Infinity | NaN

datatype error = AssertionError | RangeError | EncodingError

definition number_of_int :: "int \<Rightarrow> number" where
  "number_of_int n = Finite (double_of_int n)"

definition double_div :: "double \<Rightarrow> double \<Rightarrow> double" where
  "double_div x y =
     (let e = snd x - snd y
      in if 0 \<le> e then toDouble (fst x * 2 ^ nat e) (fst y)
         else toDouble (fst x) (fst y * 2 ^ nat (- e)))"

fun number_div :: "number \<Rightarrow> number \<Rightarrow> number" where
  "number_div NaN _ = NaN"
| "number_div _ NaN = NaN"
| "number_div Infinity Infinity = NaN"
| "number_div Infinity (Finite y) = Infinity"
| "number_div (Finite x) Infinity = Finite (0, 0)"
| "number_div (Finite x) (Finite y) =
     (if fst y = 0 then (if fst x = 0 then NaN else Infinity)
      else Finite (double_div x y))"

fun Math_floor :: "number \<Rightarrow> number" where
  "Math_floor (Finite x) = number_of_int (double_floor x)"
| "Math_floor Infinity = Infinity"
| "Math_floor NaN = NaN"

text \<open>\<open>x >= n\<close> for an integer \<open>n\<close>: false on \<open>NaN\<close>, true on \<open>Infinity\<close>.\<close>

fun number_ge :: "number \<Rightarrow> int \<Rightarrow> bool" where
  "number_ge (Finite x) n =
     (if 0 \<le> snd x then n \<le> fst x * 2 ^ nat (snd x) else n * 2 ^ nat (- snd x) \<le> fst x)"
| "number_ge Infinity n = True"
| "number_ge NaN n = False"

text \<open>
  \<open>Math.pow(2, k)\<close> is called with the floored number of halvings: a non-negative integer
  below 52, for which the power is exact, or \<open>NaN\<close>.
\<close>

fun Math_pow2 :: "number \<Rightarrow> number" where
  "Math_pow2 (Finite x) = number_of_int (2 ^ nat (double_floor x))"
| "Math_pow2 Infinity = Infinity"
| "Math_pow2 NaN = NaN"

text \<open>The assertion \<open>(x >>> 0) === x\<close> on an integral Number.\<close>

definition is_u32 :: "int \<Rightarrow> bool" where
  "is_u32 x = (0 \<le> x \<and> x < 2 ^ 32)"

definition getReward :: "int \<Rightarrow> int \<Rightarrow> error + number" where
  "getReward height interval =
     (if \<not> is_u32 height then Inl AssertionError
      else if \<not> is_u32 interval then Inl AssertionError
      else
        let halvings = Math_floor (number_div (number_of_int height) (number_of_int interval))
        in if number_ge halvings 52 then Inr (number_of_int 0)
           else Inr (Math_floor (number_div (number_of_int BASE_REWARD) (Math_pow2 halvings))))"

section \<open>Buffers and hex strings\<close>

text \<open>
  A Buffer is a list of bytes. \<open>toHex\<close> is \<open>buffer.toString('hex')\<close>: two lowercase digits
  per byte. \<open>fromHex\<close> reads a hex string of even length, digits in either case; on any
  other string it has no value.
\<close>

definition hexchars :: string where
  "hexchars = ''0123456789abcdef''"

definition toHex :: "u8 list \<Rightarrow> string" where
  "toHex bs = concat (map (\<lambda>b. [hexchars ! (unat b div 16), hexchars ! (unat b mod 16)]) bs)"

definition hexval :: "char \<Rightarrow> nat option" where
  "hexval c =
     (let n = of_char c :: nat
      in if 48 \<le> n \<and> n \<le> 57 then Some (n - 48)
         else if 97 \<le> n \<and> n \<le> 102 then Some (n - 87)
         else if 65 \<le> n \<and> n \<le> 70 then Some (n - 55)
         else None)"

fun fromHex :: "string \<Rightarrow> u8 list option" where
  "fromHex [] = Some []"
| "fromHex [c] = None"
| "fromHex (c # d # rest) =
     (case (hexval c, hexval d, fromHex rest) of
        (Some x, Some y, Some bs) \<Rightarrow> Some (of_nat (16 * x + y) # bs)
      | _ \<Rightarrow> None)"

definition ascii :: "string \<Rightarrow> u8 list" where
  "ascii s = map (\<lambda>c. of_char c) s"

section \<open>Chain entries\<close>

text \<open>
  A block header as the chain entry sees it. Hashes are lowercase hex strings, \<open>version\<close>
  and \<open>bits\<close> are u32 values, \<open>time\<close> is a JavaScript Number. The solution comes from the
  cuckoo-cycle package, which is not part of this repository: its type is left open.
\<close>

record 's Header =
  version :: u32
  prevBlock :: string
  merkleRoot :: string
  witnessRoot :: string
  treeRoot :: string
  time :: int
  bits :: u32
  nonce :: "u8 list"
  solution :: 's

text \<open>
  The entry adds its own hash, the height and the accumulated chainwork. The height is
  a Number: \<open>fromBlock\<close> computes it as \<open>prev.height + 1\<close> without wrapping.
\<close>

record 's ChainEntry = "'s Header" +
  hash :: string
  height :: int
  chainwork :: int

definition MAX_CHAINWORK :: int where
  "MAX_CHAINWORK = push_bit 256 1"

definition getProof :: "('s, 'z) ChainEntry_scheme \<Rightarrow> int" where
  "getProof e =
     (let target = fromCompact (bits e)
      in if target < 0 \<or> target = 0 then 0
         else MAX_CHAINWORK div (target + 1))"

definition getChainwork :: "('s, 'z) ChainEntry_scheme \<Rightarrow> 's ChainEntry option \<Rightarrow> int" where
  "getChainwork e prev =
     (let proof = getProof e
      in case prev of
           None \<Rightarrow> proof
         | Some p \<Rightarrow> proof + chainwork p)"

definition isGenesis :: "('s, 'z) ChainEntry_scheme \<Rightarrow> bool" where
  "isGenesis e = (height e = 0)"

text \<open>
  \<open>fromBlock\<close> copies the header fields of the block, whose hash the caller supplies
  (\<open>block.hash('hex')\<close>), sets the height from the previous entry, and only then
  computes the chainwork on the entry it has filled in.
\<close>

definition fromBlock :: "string \<Rightarrow> ('s, 'z) Header_scheme \<Rightarrow> 's ChainEntry option \<Rightarrow> 's ChainEntry" where
  "fromBlock block_hash block prev =
     (let e = \<lparr> version = version block,
                prevBlock = prevBlock block,
                merkleRoot = merkleRoot block,
                witnessRoot = witnessRoot block,
                treeRoot = treeRoot block,
                time = time block,
                bits = bits block,
                nonce = nonce block,
                solution = solution block,
                hash = block_hash,
                height = (case prev of Some p \<Rightarrow> height p + 1 | None \<Rightarrow> 0),
                chainwork = 0 \<rparr>
      in e\<lparr> chainwork := getChainwork e prev \<rparr>)"

section \<open>Serialization of chain entries\<close>

text \<open>
  Results that may fail are sums, with the error on the left; \<open>andThen\<close> chains two
  steps and stops at the first error, as a thrown exception does.
\<close>

definition andThen :: "error + 'a \<Rightarrow> ('a \<Rightarrow> error + 'b) \<Rightarrow> error + 'b" where
  "andThen m f = (case m of Inl err \<Rightarrow> Inl err | Inr x \<Rightarrow> f x)"

text \<open>Little-endian and big-endian bytes of a number, and the numbers read from them.\<close>

fun le_bytes :: "nat \<Rightarrow> int \<Rightarrow> u8 list" where
  "le_bytes 0 n = []"
| "le_bytes (Suc k) n = of_int n # le_bytes k (n div 256)"

fun le_int :: "u8 list \<Rightarrow> int" where
  "le_int [] = 0"
| "le_int (b # bs) = uint b + 256 * le_int bs"

fun be_bytes :: "nat \<Rightarrow> int \<Rightarrow> u8 list" where
  "be_bytes 0 n = []"
| "be_bytes (Suc k) n = be_bytes k (n div 256) @ [of_int n]"

text \<open>
  The writer of the buffer library, as the bytes written so far. \<open>writeHash\<close> takes a
  hex string and asserts that it has 64 characters; when the string is not made of hex
  digits the library leaves bytes of the freshly allocated buffer as they were, which
  has no value in this model and is reported as an error. \<open>writeU32\<close> and \<open>writeU64\<close>
  are modelled on their ranges (a u32, a non-negative safe integer) and report any other
  Number as an error.
\<close>

definition writeBytes :: "u8 list \<Rightarrow> u8 list \<Rightarrow> error + u8 list" where
  "writeBytes v bw = Inr (bw @ v)"

definition writeHash :: "string \<Rightarrow> u8 list \<Rightarrow> error + u8 list" where
  "writeHash v bw =
     (if length v \<noteq> 64 then Inl AssertionError
      else case fromHex v of None \<Rightarrow> Inl EncodingError | Some bs \<Rightarrow> Inr (bw @ bs))"

definition writeU32 :: "int \<Rightarrow> u8 list \<Rightarrow> error + u8 list" where
  "writeU32 v bw = (if is_u32 v then Inr (bw @ le_bytes 4 v) else Inl RangeError)"

definition writeU64 :: "int \<Rightarrow> u8 list \<Rightarrow> error + u8 list" where
  "writeU64 v bw = (if 0 \<le> v \<and> v < 2 ^ 53 then Inr (bw @ le_bytes 8 v) else Inl RangeError)"

text \<open>
  \<open>render\<close> of a writer created with a fixed size asserts that exactly that many bytes
  were written.
\<close>

definition render :: "nat \<Rightarrow> error + u8 list \<Rightarrow> error + u8 list" where
  "render n bw = andThen bw (\<lambda>data. if length data = n then Inr data else Inl AssertionError)"

text \<open>
  \<open>toArrayLike(Buffer, 'be', len)\<close> of a big number asserts that the magnitude fits and
  writes the magnitude, padded with zero bytes in front; the sign is not written.
\<close>

definition toArrayLike_be :: "int \<Rightarrow> nat \<Rightarrow> error + u8 list" where
  "toArrayLike_be n len =
     (if byteLength n \<le> len \<and> 0 < len then Inr (be_bytes len \<bar>n\<bar>) else Inl AssertionError)"

text \<open>The reader, as the bytes not yet read: each read returns its value and the rest.\<close>

definition readBytes :: "nat \<Rightarrow> u8 list \<Rightarrow> error + u8 list \<times> u8 list" where
  "readBytes n br = (if length br < n then Inl EncodingError else Inr (take n br, drop n br))"

definition readHash :: "u8 list \<Rightarrow> error + string \<times> u8 list" where
  "readHash br = andThen (readBytes 32 br) (\<lambda>(bs, br). Inr (toHex bs, br))"

definition readU32 :: "u8 list \<Rightarrow> error + int \<times> u8 list" where
  "readU32 br = andThen (readBytes 4 br) (\<lambda>(bs, br). Inr (le_int bs, br))"

definition readU64 :: "u8 list \<Rightarrow> error + int \<times> u8 list" where
  "readU64 br =
     andThen (readBytes 8 br) (\<lambda>(bs, br).
       if le_int bs < 2 ^ 53 then Inr (le_int bs, br) else Inl EncodingError)"

definition HEADER_SIZE :: nat where
  "HEADER_SIZE = 196"

definition NONCE_SIZE :: nat where
  "NONCE_SIZE = 20"

text \<open>
  The solution is written and read by the cuckoo-cycle package: \<open>sol_encode\<close> gives the
  bytes that \<open>solution.toWriter\<close> appends, \<open>sol_getSize\<close> is \<open>solution.getSize\<close>, and
  \<open>sol_fromReader\<close> is \<open>Solution.fromReader\<close>.
\<close>

definition getSize :: "('s \<Rightarrow> nat) \<Rightarrow> 's ChainEntry \<Rightarrow> nat" where
  "getSize sol_getSize e = 36 + HEADER_SIZE + sol_getSize (solution e) + 32"

text \<open>
  \<open>toRaw\<close> creates a writer of \<open>getSize\<close> bytes, performs its twelve writes
  (\<open>toRaw_writes\<close> is the writer after them) and renders the writer.
\<close>

definition toRaw_writes :: "('s \<Rightarrow> u8 list) \<Rightarrow> 's ChainEntry \<Rightarrow> error + u8 list" where
  "toRaw_writes sol_encode e =
     foldl andThen (Inr [])
       [writeHash (hash e),
        writeU32 (height e),
        writeU32 (uint (version e)),
        writeHash (prevBlock e),
        writeHash (merkleRoot e),
        writeHash (witnessRoot e),
        writeHash (treeRoot e),
        writeU64 (time e),
        writeU32 (uint (bits e)),
        writeBytes (nonce e),
        writeBytes (sol_encode (solution e)),
        (\<lambda>bw. andThen (toArrayLike_be (chainwork e) 32) (\<lambda>b. writeBytes b bw))]"

definition toRaw :: "('s \<Rightarrow> u8 list) \<Rightarrow> ('s \<Rightarrow> nat) \<Rightarrow> 's ChainEntry \<Rightarrow> error + u8 list" where
  "toRaw sol_encode sol_getSize e =
     render (getSize sol_getSize e) (toRaw_writes sol_encode e)"

definition fromRaw :: "(u8 list \<Rightarrow> error + 's \<times> u8 list) \<Rightarrow> u8 list \<Rightarrow> error + 's ChainEntry" where
  "fromRaw sol_fromReader data =
     andThen (readHash data) (\<lambda>(hash', br).
     andThen (readU32 br) (\<lambda>(height', br).
     andThen (readU32 br) (\<lambda>(version', br).
     andThen (readHash br) (\<lambda>(prevBlock', br).
     andThen (readHash br) (\<lambda>(merkleRoot', br).
     andThen (readHash br) (\<lambda>(witnessRoot', br).
     andThen (readHash br) (\<lambda>(treeRoot', br).
     andThen (readU64 br) (\<lambda>(time', br).
     andThen (readU32 br) (\<lambda>(bits', br).
     andThen (readBytes NONCE_SIZE br) (\<lambda>(nonce', br).
     andThen (sol_fromReader br) (\<lambda>(solution', br).
     andThen (readBytes 32 br) (\<lambda>(work, br).
       Inr \<lparr> version = word_of_int version',
             prevBlock = prevBlock',
             merkleRoot = merkleRoot',
             witnessRoot = witnessRoot',
             treeRoot = treeRoot',
             time = time',
             bits = word_of_int bits',
             nonce = nonce',
             solution = solution',
             hash = hash',
             height = height',
             chainwork = BN_be work \<rparr>))))))))))))"

text \<open>The entry that the constructor builds without options, with an empty solution.\<close>

definition NULL_HASH :: string where
  "NULL_HASH = replicate 64 (CHR ''0'')"

definition ZERO_NONCE :: "u8 list" where
  "ZERO_NONCE = replicate NONCE_SIZE 0"

definition ChainEntry_new :: "'s \<Rightarrow> 's ChainEntry" where
  "ChainEntry_new ZERO_SOL =
     \<lparr> version = 0,
       prevBlock = NULL_HASH,
       merkleRoot = NULL_HASH,
       witnessRoot = NULL_HASH,
       treeRoot = NULL_HASH,
       time = 0,
       bits = 0,
       nonce = ZERO_NONCE,
       solution = ZERO_SOL,
       hash = NULL_HASH,
       height = 0,
       chainwork = 0 \<rparr>"

text \<open>
  An entry that can be written: its hashes are 64 lowercase hex digits, its height is a
  u32, its time a non-negative safe integer, its nonce has 20 bytes and its chainwork is
  a non-negative number below \<open>2 ^ 256\<close>.
\<close>

definition is_hash :: "string \<Rightarrow> bool" where
  "is_hash s = (length s = 64 \<and> list_all (\<lambda>c. c \<in> set hexchars) s)"

definition encodable :: "'s ChainEntry \<Rightarrow> bool" where
  "encodable e =
     (is_hash (hash e) \<and> is_hash (prevBlock e) \<and> is_hash (merkleRoot e)
      \<and> is_hash (witnessRoot e) \<and> is_hash (treeRoot e)
      \<and> is_u32 (height e)
      \<and> 0 \<le> time e \<and> time e < 2 ^ 53
      \<and> length (nonce e) = NONCE_SIZE
      \<and> 0 \<le> chainwork e \<and> chainwork e < 2 ^ 256)"

text \<open>
  The layout of the spec, field by field: \<open>hash:32 | height:u32 | version:u32 |
  prevBlock:32 | merkleRoot:32 | witnessRoot:32 | treeRoot:32 | time:u64 | bits:u32 |
  nonce:20 | solution | chainwork:u256-be\<close>, integers little-endian unless stated.
\<close>

definition layout :: "('s \<Rightarrow> u8 list) \<Rightarrow> 's ChainEntry \<Rightarrow> u8 list list" where
  "layout sol_encode e =
     [the (fromHex (hash e)),
      le_bytes 4 (height e),
      le_bytes 4 (uint (version e)),
      the (fromHex (prevBlock e)),
      the (fromHex (merkleRoot e)),
      the (fromHex (witnessRoot e)),
      the (fromHex (treeRoot e)),
      le_bytes 8 (time e),
      le_bytes 4 (uint (bits e)),
      nonce e,
      sol_encode (solution e),
      be_bytes 32 (chainwork e)]"

text \<open>
  The solution codec of the cuckoo-cycle package as the node uses it: the number of
  edges in one byte, then each edge as a little-endian u32.
\<close>

definition Solution_encode :: "u32 list \<Rightarrow> u8 list" where
  "Solution_encode proof = of_nat (length proof) # concat (map (\<lambda>x. le_bytes 4 (uint x)) proof)"

definition Solution_getSize :: "u32 list \<Rightarrow> nat" where
  "Solution_getSize proof = 1 + length proof * 4"

fun read_edges :: "nat \<Rightarrow> u8 list \<Rightarrow> error + u32 list \<times> u8 list" where
  "read_edges 0 br = Inr ([], br)"
| "read_edges (Suc n) br =
     andThen (readU32 br) (\<lambda>(x, br).
     andThen (read_edges n br) (\<lambda>(xs, br). Inr (word_of_int x # xs, br)))"

definition Solution_fromReader :: "u8 list \<Rightarrow> error + u32 list \<times> u8 list" where
  "Solution_fromReader br =
     andThen (readBytes 1 br) (\<lambda>(size, br). read_edges (unat (hd size)) br)"

section \<open>The auction view\<close>

text \<open>
  Modelled from the spec: the Auction class (covenants/auction.js) is not among the
  sources. The view reads and writes only the \<open>nameHash\<close> of an auction; the remaining
  fields of the auction record of the spec (name, height, renewal, owner, value, highest,
  state, transfer) live in the extension part of the record.
\<close>

record Auction =
  nameHash :: "u8 list"

text \<open>The view caches auctions in a map keyed by the hex string of the name hash.\<close>

record 'z View =
  auctions :: "string \<rightharpoonup> 'z Auction_scheme"

definition View_new :: "'z View" where
  "View_new = \<lparr> auctions = Map.empty \<rparr>"

text \<open>
  \<open>getAuction\<close> takes the auction that \<open>new Auction()\<close> constructs and the store's lookup
  \<open>db.getAuction\<close>, which answers \<open>None\<close> for null. It returns the auction together with
  the view as it has been updated.
\<close>

definition getAuction ::
  "'z Auction_scheme \<Rightarrow> 'z View \<Rightarrow> (u8 list \<Rightarrow> 'z Auction_scheme option) \<Rightarrow> u8 list
   \<Rightarrow> 'z Auction_scheme \<times> 'z View" where
  "getAuction Auction_new view db name_hash =
     (let key = toHex name_hash
      in case auctions view key of
           Some cache \<Rightarrow> (cache, view)
         | None \<Rightarrow>
             (case db name_hash of
                None \<Rightarrow>
                  (let auction = Auction_new\<lparr> nameHash := name_hash \<rparr>
                   in (auction, view\<lparr> auctions := (auctions view)(key \<mapsto> auction) \<rparr>))
              | Some auction \<Rightarrow>
                  (auction, view\<lparr> auctions := (auctions view)(key \<mapsto> auction) \<rparr>)))"

section \<open>The node client\<close>

text \<open>
  The client holds the \<open>opened\<close> flag. The node notifies it of four kinds of events; the
  client emits events to its subscribers. \<open>open\<close> and \<open>close\<close> do not emit: they schedule
  the emission of \<open>connect\<close> and \<open>disconnect\<close> with \<open>setImmediate\<close>, and the event is
  delivered in a later turn of the event loop. The lists below record, in the order of
  their causes, the events a step emits or schedules; \<open>Connect\<close> and \<open>Disconnect\<close> stand
  for the scheduling, so a notification handled in the same turn is delivered before
  them.
\<close>

record NodeClient =
  opened :: bool

datatype ('e, 't) node_event =
    Node_connect 'e "'t list"
  | Node_disconnect 'e "'t list"
  | Node_tx 't
  | Node_reset 'e

datatype ('e, 't) client_event =
    Block_connect 'e "'t list"
  | Block_disconnect 'e
  | Tx 't
  | Chain_reset 'e
  | Connect
  | Disconnect

definition NodeClient_new :: NodeClient where
  "NodeClient_new = \<lparr> opened = False \<rparr>"

text \<open>
  The four listeners installed by \<open>init\<close>. A block is given by its list of transactions
  \<open>block.txs\<close>. The result is the list of events emitted to the subscribers, at once.
\<close>

fun on_node_event :: "NodeClient \<Rightarrow> ('e, 't) node_event \<Rightarrow> ('e, 't) client_event list" where
  "on_node_event c (Node_connect entry txs) =
     (if \<not> opened c then [] else [Block_connect entry txs])"
| "on_node_event c (Node_disconnect entry txs) =
     (if \<not> opened c then [] else [Block_disconnect entry])"
| "on_node_event c (Node_tx tx) =
     (if \<not> opened c then [] else [Tx tx])"
| "on_node_event c (Node_reset tip) =
     (if \<not> opened c then [] else [Chain_reset tip])"

definition NodeClient_open :: "NodeClient \<Rightarrow> error + NodeClient \<times> ('e, 't) client_event list" where
  "NodeClient_open c =
     (if opened c then Inl AssertionError
      else Inr (c\<lparr> opened := True \<rparr>, [Connect]))"

definition NodeClient_close :: "NodeClient \<Rightarrow> error + NodeClient \<times> ('e, 't) client_event list" where
  "NodeClient_close c =
     (if \<not> opened c then Inl AssertionError
      else Inr (c\<lparr> opened := False \<rparr>, [Disconnect]))"

text \<open>
  A history of the client: calls of \<open>open\<close> and \<open>close\<close> interleaved with notifications
  from the node. A call whose assertion fails throws, changes nothing and schedules
  nothing.
\<close>

datatype ('e, 't) action = Open | Close | Notify "('e, 't) node_event"

fun step :: "NodeClient \<Rightarrow> ('e, 't) action \<Rightarrow> NodeClient \<times> ('e, 't) client_event list" where
  "step c Open = (case NodeClient_open c of Inl err \<Rightarrow> (c, []) | Inr r \<Rightarrow> r)"
| "step c Close = (case NodeClient_close c of Inl err \<Rightarrow> (c, []) | Inr r \<Rightarrow> r)"
| "step c (Notify ev) = (c, on_node_event c ev)"

fun run :: "NodeClient \<Rightarrow> ('e, 't) action list \<Rightarrow> NodeClient \<times> ('e, 't) client_event list" where
  "run c [] = (c, [])"
| "run c (a # as) =
     (let (c', out) = step c a; (c'', outs) = run c' as
      in (c'', out @ outs))"

text \<open>
  \<open>getEntry\<close> asks the chain for the entry and for its membership in the main chain:
  \<open>chain_getEntry\<close> answers \<open>None\<close> for null.
\<close>

definition NodeClient_getEntry :: "('h \<Rightarrow> 'e option) \<Rightarrow> ('e \<Rightarrow> bool) \<Rightarrow> 'h \<Rightarrow> 'e option" where
  "NodeClient_getEntry chain_getEntry chain_isMainChain h =
     (case chain_getEntry h of
        None \<Rightarrow> None
      | Some entry \<Rightarrow>
          if \<not> chain_isMainChain entry then None
          else Some entry)"

section \<open>The genesis block builder\<close>

text \<open>
  Modelled from the spec: the transaction primitives (TX, Input, Output, Address,
  Witness) and the covenant types of \<open>rules.types\<close> are not among the sources. A
  transaction is \<open>version | inputs | outputs | locktime\<close>, an input is a prevout (hash and
  index), a witness and a sequence, an output is a value, an address (version and hash)
  and a covenant (type and items). A new output has the value 0, a null address and the
  \<open>NONE\<close> covenant without items.
\<close>

datatype covenant_type =
  NONE | CLAIM | BID | REVEAL | REDEEM | REGISTER | UPDATE | RENEW | TRANSFER | FINALIZE | REVOKE

record Covenant =
  cov_type :: covenant_type
  cov_items :: "u8 list list"

record Address =
  addr_version :: int
  addr_hash :: "u8 list"

record Output =
  out_value :: int
  out_address :: Address
  out_covenant :: Covenant

record Outpoint =
  prev_hash :: string
  prev_index :: int

record Input =
  in_prevout :: Outpoint
  in_witness :: "u8 list list"
  in_sequence :: int

record TX =
  tx_version :: int
  tx_inputs :: "Input list"
  tx_outputs :: "Output list"
  tx_locktime :: int

definition Address_fromHash :: "u8 list \<Rightarrow> int \<Rightarrow> Address" where
  "Address_fromHash h v = \<lparr> addr_version = v, addr_hash = h \<rparr>"

definition Covenant_new :: Covenant where
  "Covenant_new = \<lparr> cov_type = NONE, cov_items = [] \<rparr>"

definition Output_new :: Output where
  "Output_new = \<lparr> out_value = 0, out_address = Address_fromHash [] 0, out_covenant = Covenant_new \<rparr>"

definition GENESIS_KEY :: "u8 list" where
  "GENESIS_KEY = [0xf0, 0x23, 0x7a, 0xe2, 0xe8, 0xf8, 0x60, 0xf7, 0xd7, 0x91,
                  0x24, 0xfc, 0x51, 0x3f, 0x01, 0x2e, 0x5a, 0xaa, 0x8d, 0x23]"

text \<open>
  \<open>names = Object.keys(root).sort()\<close>: the keys of the root zone snapshot in the order
  of the default sort, which compares strings code unit by code unit.
\<close>

definition names :: "string list \<Rightarrow> string list" where
  "names root_keys = sort root_keys"

text \<open>\<open>name.slice(0, -1)\<close> drops the last character of the name.\<close>

definition slice_0_m1 :: "string \<Rightarrow> string" where
  "slice_0_m1 name = butlast name"

text \<open>One turn of the loop over the names: build the claim output and push it.\<close>

definition push_claim :: "Address \<Rightarrow> TX \<Rightarrow> string \<Rightarrow> TX" where
  "push_claim claimant claimer name =
     (let rawName = ascii (slice_0_m1 name);
          claim = Output_new;
          claim = claim\<lparr> out_value := 0 \<rparr>;
          claim = claim\<lparr> out_address := claimant \<rparr>;
          claim = claim\<lparr> out_covenant := (out_covenant claim)\<lparr> cov_type := CLAIM \<rparr> \<rparr>;
          claim = claim\<lparr> out_covenant :=
                    (out_covenant claim)\<lparr> cov_items := cov_items (out_covenant claim) @ [rawName] \<rparr> \<rparr>
      in claimer\<lparr> tx_outputs := tx_outputs claimer @ [claim] \<rparr>)"

text \<open>
  The claimer of \<open>createGenesisBlock\<close>: \<open>coinbase_hash\<close> is \<open>tx.hash('hex')\<close> of the coinbase
  transaction, \<open>claimant_key\<close> is \<open>options.keys.claimant\<close>, \<open>root_keys\<close> are the keys of the
  root zone snapshot.
\<close>

definition createGenesisBlock_claimer :: "string \<Rightarrow> u8 list \<Rightarrow> string list \<Rightarrow> TX" where
  "createGenesisBlock_claimer coinbase_hash claimant_key root_keys =
     (let genesis = Address_fromHash GENESIS_KEY 0;
          claimant = Address_fromHash claimant_key 0;
          claimer = \<lparr> tx_version = 0,
                      tx_inputs = [\<lparr> in_prevout = \<lparr> prev_hash = coinbase_hash, prev_index = 0 \<rparr>,
                                     in_witness = [],
                                     in_sequence = 0xffffffff \<rparr>],
                      tx_outputs = [Output_new\<lparr> out_value := GENESIS_REWARD, out_address := genesis \<rparr>],
                      tx_locktime = 0 \<rparr>
      in foldl (push_claim claimant) claimer (names root_keys))"


section \<open>The genesis reward\<close>

text \<open>
  C1. The genesis reward is the base reward plus 4_420_000 subunits: with
  \<open>COIN = 10 ^ 6\<close> it is exactly 1_004_420_000.
\<close>

theorem GENESIS_REWARD_value:
  "COIN = 10 ^ 6 \<and> GENESIS_REWARD = 1000 * COIN + 4420000 \<and> GENESIS_REWARD = 1004420000"
  by code_simp

section \<open>Compact targets round-trip\<close>

subsection \<open>Bit length of a big number\<close>

lemma bitlen_pos: "0 < n \<Longrightarrow> bitlen n = Suc (bitlen (n div 2))"
  by (subst bitlen.simps) simp

lemma bitlen_nonpos: "n \<le> 0 \<Longrightarrow> bitlen n = 0"
  by (subst bitlen.simps) simp

lemma bitlen_bounds: "0 < n \<Longrightarrow> 2 ^ (bitlen n - 1) \<le> n \<and> n < 2 ^ bitlen n"
proof (induction n rule: bitlen.induct)
  case (1 n)
  show ?case
  proof (cases "n = 1")
    case True
    then show ?thesis by (simp add: bitlen_pos bitlen_nonpos)
  next
    case False
    with "1.prems" have h: "0 < n div 2" by simp
    from "1.IH" [OF _ h] "1.prems"
    have ih: "2 ^ (bitlen (n div 2) - 1) \<le> n div 2" "n div 2 < 2 ^ bitlen (n div 2)" by simp_all
    have pos: "0 < bitlen (n div 2)" using h by (simp add: bitlen_pos)
    then obtain j where j: "bitlen (n div 2) = Suc j" by (cases "bitlen (n div 2)") auto
    have "2 * 2 ^ j \<le> n" "n < 4 * 2 ^ j" using ih unfolding j by simp_all
    then show ?thesis using "1.prems" by (simp add: bitlen_pos j)
  qed
qed

lemma bitlen_unique:
  assumes "2 ^ j \<le> n" "n < 2 ^ Suc j"
  shows "bitlen n = Suc j"
proof -
  have pos: "0 < n" using assms(1) by (smt (verit) zero_less_power)
  from bitlen_bounds [OF pos] have b: "2 ^ (bitlen n - 1) \<le> n" "n < 2 ^ bitlen n" by simp_all
  have "(2::int) ^ j < 2 ^ bitlen n" using assms(1) b(2) by linarith
  then have 1: "j < bitlen n" by simp
  have "(2::int) ^ (bitlen n - 1) < 2 ^ Suc j" using assms(2) b(1) by linarith
  then have 2: "bitlen n - 1 < Suc j" using power_less_imp_less_exp [of 2 "bitlen n - 1" "Suc j"] by simp
  show ?thesis using 1 2 by linarith
qed

lemma bitlen_shift:
  assumes "0 < n"
  shows "bitlen (n * 2 ^ k) = bitlen n + k"
proof -
  from bitlen_bounds [OF assms] have b: "2 ^ (bitlen n - 1) \<le> n" "n < 2 ^ bitlen n" by simp_all
  have pos: "0 < bitlen n" using assms by (simp add: bitlen_pos)
  then obtain j where j: "bitlen n = Suc j" by (cases "bitlen n") auto
  have "2 ^ (j + k) \<le> n * 2 ^ k" using b(1) by (simp add: j power_add)
  moreover have "n * 2 ^ k < 2 ^ Suc (j + k)" using b(2) by (simp add: j power_add)
  ultimately have "bitlen (n * 2 ^ k) = Suc (j + k)" by (rule bitlen_unique)
  then show ?thesis by (simp add: j)
qed

lemma byteLength_shift:
  assumes "0 < m"
  shows "byteLength (m * 256 ^ k) = byteLength m + k"
proof -
  have "(256::int) ^ k = 2 ^ (8 * k)" by (simp add: power_mult)
  then have "bitlen (m * 256 ^ k) = bitlen m + 8 * k" using bitlen_shift [OF assms, of "8 * k"] by simp
  moreover have "\<bar>m * 256 ^ k\<bar> = m * 256 ^ k" using assms by simp
  ultimately show ?thesis using assms by (simp add: byteLength_def bitLength_def)
qed

subsection \<open>Decoding a composed compact number\<close>

lemma mask23: "(0x7fffff :: u32) = mask 23" by (simp add: mask_eq_exp_minus_1)
lemma mask1: "(1 :: u32) = mask 1" by (simp add: mask_eq_exp_minus_1)

lemma compose_exponent:
  assumes "0 \<le> mant" "mant < 2 ^ 24"
  shows "drop_bit 24 (push_bit 24 (word_of_nat e) OR word_of_int mant :: u32) = drop_bit 24 (push_bit 24 (word_of_nat e))"
proof -
  have m: "take_bit 24 mant = mant" using assms by (simp add: take_bit_int_eq_self)
  show ?thesis
    by (subst m [symmetric], rule bit_word_eqI) (auto simp: bit_simps)
qed

lemma compose_mantissa:
  assumes "0 \<le> mant" "mant < 2 ^ 23"
  shows "(push_bit 24 (word_of_nat e) OR word_of_int mant :: u32) AND mask 23 = word_of_int mant"
proof -
  have m: "take_bit 23 mant = mant" using assms by (simp add: take_bit_int_eq_self)
  show ?thesis
    by (subst (1 2) m [symmetric], rule bit_word_eqI) (auto simp: bit_simps)
qed

lemma compose_sign:
  assumes "0 \<le> mant" "mant < 2 ^ 23"
  shows "drop_bit 23 (push_bit 24 (word_of_nat e) OR word_of_int mant :: u32) AND mask 1 = 0"
proof -
  have m: "take_bit 23 mant = mant" using assms by (simp add: take_bit_int_eq_self)
  show ?thesis
    by (subst m [symmetric], rule bit_word_eqI) (auto simp: bit_simps)
qed

lemma exponent_back:
  assumes "e < 256"
  shows "unat (drop_bit 24 (push_bit 24 (word_of_nat e :: u32))) = e"
proof -
  have m: "take_bit 8 e = e" using assms by (simp add: take_bit_nat_eq_self)
  have "drop_bit 24 (push_bit 24 (word_of_nat (take_bit 8 e) :: u32)) = word_of_nat (take_bit 8 e)"
    by (rule bit_word_eqI) (auto simp: bit_simps)
  then have "drop_bit 24 (push_bit 24 (word_of_nat e :: u32)) = word_of_nat e" by (simp only: m)
  moreover have "unat (word_of_nat e :: u32) = e" using assms by (simp add: unat_of_nat take_bit_nat_eq_self)
  ultimately show ?thesis by simp
qed

lemma uint_small:
  assumes "0 \<le> k" "k < 2 ^ 32"
  shows "uint (word_of_int k :: u32) = k"
  using assms by (simp add: uint_word_of_int_eq take_bit_int_eq_self)

lemma uint_drop_small:
  assumes "0 \<le> k" "k < 2 ^ 32"
  shows "uint (drop_bit s (word_of_int k :: u32)) = k div 2 ^ s"
proof -
  have "uint (drop_bit s (word_of_int k :: u32)) = drop_bit s (take_bit 32 (uint (word_of_int k :: u32)))"
    by (rule unsigned_drop_bit_eq [where 'b = 32, simplified])
  also have "\<dots> = drop_bit s k" using assms by (simp add: uint_small take_bit_int_eq_self)
  finally show ?thesis by (simp only: drop_bit_eq_div)
qed

lemma word_nonzero:
  assumes "0 < k" "k < 2 ^ 32"
  shows "(word_of_int k :: u32) \<noteq> 0"
  using assms uint_small [of k] by (metis order_less_imp_le order_less_irrefl unsigned_0)

lemma fromCompact_compose:
  assumes "e < 256" "0 < mant" "mant < 2 ^ 23"
  shows "fromCompact (push_bit 24 (word_of_nat e) OR word_of_int mant) =
         (if e \<le> 3 then mant div 2 ^ (8 * (3 - e)) else mant * 2 ^ (8 * (e - 3)))"
proof -
  let ?c = "push_bit 24 (word_of_nat e) OR word_of_int mant :: u32"
  have r: "0 \<le> mant" "mant < 2 ^ 24" "mant < 2 ^ 32" using assms by simp_all
  have man: "?c AND 0x7fffff = word_of_int mant"
    unfolding mask23 using r(1) assms(3) by (rule compose_mantissa)
  have neg: "drop_bit 23 ?c AND 1 = 0"
    unfolding mask1 using r(1) assms(3) by (rule compose_sign)
  have ex: "unat (drop_bit 24 ?c) = e"
    using compose_exponent [OF r(1,2), of e] exponent_back [OF assms(1)] by simp
  have nz: "?c \<noteq> 0"
  proof
    assume "?c = 0"
    then have "?c AND 0x7fffff = 0" by simp
    with man word_nonzero [OF assms(2) r(3)] show False by simp
  qed
  show ?thesis
    unfolding fromCompact_def Let_def man neg ex
    using nz r by (simp add: uint_small uint_drop_small push_bit_eq_mult)
qed

subsection \<open>Encoding a byte-aligned mantissa\<close>

lemma bitlen_le:
  assumes "0 < n" "n < 2 ^ j"
  shows "bitlen n \<le> j"
proof -
  from bitlen_bounds [OF assms(1)] have "(2::int) ^ (bitlen n - 1) < 2 ^ j" using assms(2) by linarith
  then have "bitlen n - 1 < j" using power_less_imp_less_exp [of 2 "bitlen n - 1" j] by simp
  then show ?thesis by linarith
qed

lemma byteLength_range:
  assumes "0 < m" "m < 2 ^ 23"
  shows "1 \<le> byteLength m \<and> byteLength m \<le> 3 \<and> m < 256 ^ byteLength m"
proof -
  have abs: "\<bar>m\<bar> = m" using assms by simp
  have pos: "0 < bitlen m" using assms(1) by (simp add: bitlen_pos)
  have le: "bitlen m \<le> 23" using assms by (rule bitlen_le)
  have "m < 2 ^ bitlen m" using bitlen_bounds [OF assms(1)] by simp
  also have "(2::int) ^ bitlen m \<le> 2 ^ (8 * ((bitlen m + 7) div 8))"
    by (rule power_increasing) auto
  finally have "m < 256 ^ ((bitlen m + 7) div 8)" by (simp add: power_mult)
  moreover have "1 \<le> (bitlen m + 7) div 8 \<and> (bitlen m + 7) div 8 \<le> 3" using pos le by arith
  ultimately show ?thesis by (simp add: byteLength_def bitLength_def abs)
qed

lemma carry_test:
  assumes "0 \<le> M" "M < 2 ^ 24"
  shows "((word_of_int M :: u32) AND 0x800000 \<noteq> 0) = (2 ^ 23 \<le> M)"
proof -
  have "(0x800000 :: u32) = 2 ^ 23" by simp
  then have "((word_of_int M :: u32) AND 0x800000 = 0) = (\<not> bit (word_of_int M :: u32) 23)"
    by (simp only: and_exp_eq_0_iff_not_bit)
  also have "\<dots> = (\<not> bit M 23)" by (simp add: bit_word_of_int_iff)
  also have "\<dots> = (M < 2 ^ 23)"
  proof -
    have "M div 2 ^ 23 = 0 \<or> M div 2 ^ 23 = 1" using assms by auto
    moreover have "(M div 2 ^ 23 = 0) = (M < 2 ^ 23)" using assms by auto
    ultimately show ?thesis by (auto simp: bit_iff_odd)
  qed
  finally show ?thesis by auto
qed

lemma drop8:
  assumes "0 \<le> M" "M < 2 ^ 24"
  shows "drop_bit 8 (word_of_int M :: u32) = word_of_int (M div 256)"
proof -
  have "uint (drop_bit 8 (word_of_int M :: u32)) = M div 2 ^ 8" using assms by (simp add: uint_drop_small)
  moreover have "uint (word_of_int (M div 256) :: u32) = M div 256"
    using assms by (intro uint_small) auto
  ultimately show ?thesis by (simp add: word_uint_eq_iff)
qed

lemma pow256: "(2::int) ^ (8 * n) = 256 ^ n"
  by (simp add: power_mult)

lemma pow256_div:
  assumes "c \<le> a"
  shows "(m * 256 ^ a) div 256 ^ c = m * (256::int) ^ (a - c)"
proof -
  have "(256::int) ^ a = 256 ^ (a - c) * 256 ^ c" using assms by (simp add: power_add [symmetric])
  then show ?thesis by simp
qed

lemma pow256_mult: "(m * 256 ^ a) * 256 ^ c = m * (256::int) ^ (a + c)"
  by (simp add: power_add)

lemma toCompact_aligned:
  assumes "0 < m" "m < 2 ^ 23" "byteLength m + k < 255"
  shows "toCompact (m * 256 ^ k) =
     (if 2 ^ 23 \<le> m * 256 ^ (3 - byteLength m)
      then push_bit 24 (word_of_nat (byteLength m + k + 1)) OR word_of_int (m * 256 ^ (3 - byteLength m) div 256)
      else push_bit 24 (word_of_nat (byteLength m + k)) OR word_of_int (m * 256 ^ (3 - byteLength m)))"
proof -
  define b where "b = byteLength m"
  define M where "M = m * 256 ^ (3 - b)"
  define x where "x = m * 256 ^ k"
  have b: "1 \<le> b" "b \<le> 3" "m < 256 ^ b" using byteLength_range [OF assms(1,2)] by (simp_all add: b_def)
  have xpos: "0 < x" using assms(1) by (simp add: x_def)
  have bl: "byteLength x = b + k" unfolding x_def b_def using assms(1) by (rule byteLength_shift)
  have M0: "0 \<le> M" using assms(1) by (simp add: M_def)
  have "M < 256 ^ b * 256 ^ (3 - b)" unfolding M_def using b(3) by simp
  also have "\<dots> = 256 ^ 3" using b(2) by (simp add: power_add [symmetric])
  finally have M24: "M < 2 ^ 24" by simp
  have mant: "(if b + k \<le> 3 then push_bit (8 * (3 - (b + k))) (word_of_int x :: u32)
               else word_of_int (ushrn x (8 * (b + k - 3)))) = word_of_int M"
  proof (cases "b + k \<le> 3")
    case True
    have "x * 256 ^ (3 - (b + k)) = m * 256 ^ (k + (3 - (b + k)))" unfolding x_def by (rule pow256_mult)
    also have "k + (3 - (b + k)) = 3 - b" using True by arith
    finally have "x * 256 ^ (3 - (b + k)) = M" by (simp add: M_def)
    then have "word_of_int (x * 2 ^ (8 * (3 - (b + k)))) = (word_of_int M :: u32)" by (simp only: pow256)
    then show ?thesis using True by (simp add: push_bit_eq_mult)
  next
    case False
    then have le: "b + k - 3 \<le> k" using b(2) by arith
    have "x div 256 ^ (b + k - 3) = m * 256 ^ (k - (b + k - 3))" unfolding x_def using le by (rule pow256_div)
    also have "k - (b + k - 3) = 3 - b" using False b(2) by arith
    finally have "x div 2 ^ (8 * (b + k - 3)) = M" by (simp only: pow256 M_def)
    then show ?thesis using False xpos by (simp add: ushrn_def)
  qed
  show ?thesis
    unfolding toCompact_def Let_def
    unfolding x_def [symmetric] b_def [symmetric] bl mant M_def [symmetric]
    unfolding carry_test [OF M0 M24] drop8 [OF M0 M24]
    using xpos by simp
qed

lemma byteLength_le32:
  assumes "0 < x" "x < 2 ^ 256"
  shows "byteLength x \<le> 32"
proof -
  have "bitlen x \<le> 256" using assms by (rule bitlen_le)
  moreover have "\<bar>x\<bar> = x" using assms(1) by simp
  ultimately show ?thesis by (simp add: byteLength_def bitLength_def)
qed

lemma fromCompact_toCompact_aligned:
  assumes "0 < m" "m < 2 ^ 23" "m * 256 ^ k < 2 ^ 256"
  shows "fromCompact (toCompact (m * 256 ^ k)) = m * 256 ^ k"
proof -
  define b where "b = byteLength m"
  define M where "M = m * 256 ^ (3 - b)"
  have b: "1 \<le> b" "b \<le> 3" "m < 256 ^ b" using byteLength_range [OF assms(1,2)] by (simp_all add: b_def)
  have xpos: "0 < m * 256 ^ k" using assms(1) by simp
  have "byteLength (m * 256 ^ k) \<le> 32" using xpos assms(3) by (rule byteLength_le32)
  then have bk: "b + k \<le> 32" using byteLength_shift [OF assms(1), of k] by (simp add: b_def)
  then have small: "byteLength m + k < 255" by (simp add: b_def)
  have M0: "0 < M" using assms(1) by (simp add: M_def)
  have "M < 256 ^ b * 256 ^ (3 - b)" unfolding M_def using b(3) by simp
  also have "\<dots> = 256 ^ 3" using b(2) by (simp add: power_add [symmetric])
  finally have M24: "M < 2 ^ 24" by simp
  show ?thesis
  proof (cases "2 ^ 23 \<le> M")
    case True
    have b2: "b \<le> 2"
    proof (rule ccontr)
      assume "\<not> b \<le> 2"
      with b(2) have "b = 3" by simp
      then have "M = m" by (simp add: M_def)
      with True assms(2) show False by simp
    qed
    have Md: "M div 256 = m * 256 ^ (2 - b)"
    proof -
      have "M div 256 ^ 1 = m * 256 ^ (3 - b - 1)" unfolding M_def by (rule pow256_div) (use b2 in arith)
      moreover have "3 - b - 1 = 2 - b" by arith
      ultimately show ?thesis by simp
    qed
    have r: "0 < M div 256" "M div 256 < 2 ^ 23" using True M24 by auto
    have e: "b + k + 1 < 256" using bk by simp
    have tc: "toCompact (m * 256 ^ k) = push_bit 24 (word_of_nat (b + k + 1)) OR word_of_int (M div 256)"
      using toCompact_aligned [OF assms(1,2) small] True by (simp add: b_def M_def)
    have "fromCompact (toCompact (m * 256 ^ k)) =
          (if b + k + 1 \<le> 3 then (M div 256) div 256 ^ (3 - (b + k + 1)) else (M div 256) * 256 ^ (b + k + 1 - 3))"
      unfolding tc fromCompact_compose [OF e r] by (simp only: pow256)
    also have "\<dots> = m * 256 ^ k"
    proof (cases "b + k + 1 \<le> 3")
      case True
      then have le: "3 - (b + k + 1) \<le> 2 - b" by arith
      have "(m * 256 ^ (2 - b)) div 256 ^ (3 - (b + k + 1)) = m * 256 ^ (2 - b - (3 - (b + k + 1)))"
        using le by (rule pow256_div)
      moreover have "2 - b - (3 - (b + k + 1)) = k" using True by arith
      ultimately show ?thesis using True by (simp add: Md)
    next
      case False
      have "(m * 256 ^ (2 - b)) * 256 ^ (b + k + 1 - 3) = m * 256 ^ (2 - b + (b + k + 1 - 3))"
        by (rule pow256_mult)
      moreover have "2 - b + (b + k + 1 - 3) = k" using False b2 by arith
      ultimately show ?thesis using False by (simp add: Md)
    qed
    finally show ?thesis .
  next
    case False
    then have r: "M < 2 ^ 23" by simp
    have e: "b + k < 256" using bk by simp
    have tc: "toCompact (m * 256 ^ k) = push_bit 24 (word_of_nat (b + k)) OR word_of_int M"
      using toCompact_aligned [OF assms(1,2) small] False by (simp add: b_def M_def)
    have "fromCompact (toCompact (m * 256 ^ k)) =
          (if b + k \<le> 3 then M div 256 ^ (3 - (b + k)) else M * 256 ^ (b + k - 3))"
      unfolding tc fromCompact_compose [OF e M0 r] by (simp only: pow256)
    also have "\<dots> = m * 256 ^ k"
    proof (cases "b + k \<le> 3")
      case True
      then have le: "3 - (b + k) \<le> 3 - b" by arith
      have "(m * 256 ^ (3 - b)) div 256 ^ (3 - (b + k)) = m * 256 ^ (3 - b - (3 - (b + k)))"
        using le by (rule pow256_div)
      moreover have "3 - b - (3 - (b + k)) = k" using True by arith
      ultimately show ?thesis using True by (simp add: M_def)
    next
      case False
      have "(m * 256 ^ (3 - b)) * 256 ^ (b + k - 3) = m * 256 ^ (3 - b + (b + k - 3))"
        by (rule pow256_mult)
      moreover have "3 - b + (b + k - 3) = k" using False b(2) by arith
      ultimately show ?thesis using False by (simp add: M_def)
    qed
    finally show ?thesis .
  qed
qed

text \<open>
  C2 (as amended). The compact form has a 23-bit mantissa field and an exponent that
  counts bytes. For every positive 256-bit value \<open>x = m * 256 ^ k\<close> whose mantissa \<open>m\<close>
  has at most 23 bits, that is for a mantissa placed on a byte boundary,
  \<open>fromCompact (toCompact x) = x\<close>; and in the other order
  \<open>toCompact (fromCompact 0x1d00ffff) = 0x1d00ffff\<close>.
\<close>

theorem compact_roundtrip:
  "(\<forall>m k. 0 < m \<and> m < 2 ^ 23 \<and> m * 256 ^ k < 2 ^ 256 \<longrightarrow>
      fromCompact (toCompact (m * 256 ^ k)) = m * 256 ^ k)
   \<and> toCompact (fromCompact 0x1d00ffff) = 0x1d00ffff"
proof -
  have "toCompact (fromCompact 0x1d00ffff) = 0x1d00ffff" by code_simp
  then show ?thesis using fromCompact_toCompact_aligned by blast
qed

theorem compact_roundtrip_witness:
  "0 < (0xffff::int) \<and> (0xffff::int) < 2 ^ 23 \<and> (0xffff::int) * 256 ^ 26 < 2 ^ 256
   \<and> fromCompact (toCompact (0xffff * 256 ^ 26)) = 0xffff * 256 ^ 26
   \<and> toCompact (0xffff * 256 ^ 26) = 0x1d00ffff"
proof -
  have h: "0 < (0xffff::int) \<and> (0xffff::int) < 2 ^ 23 \<and> (0xffff::int) * 256 ^ 26 < 2 ^ 256" by simp
  have t: "toCompact (0xffff * 256 ^ 26) = 0x1d00ffff" by code_simp
  from compact_roundtrip have "fromCompact (toCompact (0xffff * 256 ^ 26)) = 0xffff * 256 ^ 26"
    using h by blast
  with h t show ?thesis by blast
qed

text \<open>
  C2 as stated ranges over every positive 256-bit value with at most 23 bits of
  mantissa. The value \<open>0xfffffe = 0x7fffff * 2\<close> has 23 significant bits, but they are
  not aligned to a byte boundary: \<open>toCompact\<close> sees the three bytes \<open>0xfffffe\<close> with the
  sign bit of the mantissa field set, shifts the low byte out, and the value comes back
  as \<open>0xffff00\<close>.
\<close>

theorem compact_roundtrip_unaligned:
  "(0::int) < 0xfffffe \<and> (0xfffffe::int) < 2 ^ 256
   \<and> (0xfffffe::int) = 0x7fffff * 2 \<and> (0x7fffff::int) < 2 ^ 23
   \<and> toCompact 0xfffffe = 0x0400ffff
   \<and> fromCompact (toCompact 0xfffffe) = 0xffff00
   \<and> fromCompact (toCompact 0xfffffe) \<noteq> 0xfffffe"
proof -
  have t: "toCompact 0xfffffe = 0x0400ffff" by code_simp
  have f: "fromCompact 0x0400ffff = 0xffff00" by code_simp
  from t f show ?thesis by simp
qed

text \<open>
  The byte-aligned values are the only ones that come back: every value of
  \<open>fromCompact\<close> is, up to its sign, a 23-bit mantissa times a power of 256.
\<close>

lemma fromCompact_range:
  "\<exists>m k. 0 \<le> m \<and> m < 2 ^ 23 \<and> \<bar>fromCompact c\<bar> = m * 256 ^ k"
proof -
  define mant where "mant = c AND 0x7fffff"
  have "mant \<le> 0x7fffff" unfolding mant_def by (rule word_and_le1)
  then have "uint mant \<le> uint (0x7fffff :: u32)" by (simp only: word_le_def)
  then have m: "0 \<le> uint mant" "uint mant < 2 ^ 23" by simp_all
  define ex where "ex = unat (drop_bit 24 c)"
  define num where "num = (if ex \<le> 3 then uint (drop_bit (8 * (3 - ex)) mant)
                            else push_bit (8 * (ex - 3)) (uint mant))"
  have f: "fromCompact c = 0 \<or> fromCompact c = num \<or> fromCompact c = - num"
    by (simp add: fromCompact_def Let_def num_def ex_def mant_def)
  have n: "\<exists>m k. 0 \<le> m \<and> m < 2 ^ 23 \<and> num = m * 256 ^ k"
  proof (cases "ex \<le> 3")
    case True
    have "uint (drop_bit (8 * (3 - ex)) (word_of_int (uint mant) :: u32)) = uint mant div 2 ^ (8 * (3 - ex))"
      using m by (intro uint_drop_small) simp_all
    moreover have "uint mant div 2 ^ (8 * (3 - ex)) \<le> uint mant div 1"
      using m(1) by (intro zdiv_mono2) simp_all
    ultimately have "uint (drop_bit (8 * (3 - ex)) mant) \<le> uint mant" by simp
    then have "0 \<le> num \<and> num < 2 ^ 23 \<and> num = num * 256 ^ 0" using True m by (simp add: num_def)
    then show ?thesis by blast
  next
    case False
    then have "num = uint mant * 256 ^ (ex - 3)" by (simp add: num_def push_bit_eq_mult pow256)
    with m show ?thesis by blast
  qed
  then obtain m k where mk: "0 \<le> m" "m < 2 ^ 23" "num = m * 256 ^ k" by blast
  then have "0 \<le> num" by simp
  with f consider "fromCompact c = 0" | "\<bar>fromCompact c\<bar> = num" by fastforce
  then show ?thesis
  proof cases
    case 1
    then have "(0::int) \<le> 0 \<and> (0::int) < 2 ^ 23 \<and> \<bar>fromCompact c\<bar> = 0 * 256 ^ 0" by simp
    then show ?thesis by blast
  next
    case 2
    with mk show ?thesis by auto
  qed
qed

lemma roundtrip_only_aligned:
  assumes "0 < x" "fromCompact (toCompact x) = x"
  shows "\<exists>m k. 0 < m \<and> m < 2 ^ 23 \<and> x = m * 256 ^ k"
proof -
  from fromCompact_range [of "toCompact x"] obtain m k
    where mk: "0 \<le> m" "m < 2 ^ 23" "\<bar>fromCompact (toCompact x)\<bar> = m * 256 ^ k" by blast
  with assms have x: "x = m * 256 ^ k" by simp
  with assms(1) mk(1) have "0 < m" by (cases "m = 0") simp_all
  with mk(2) x show ?thesis by blast
qed

section \<open>Proof of work and chainwork\<close>

lemma bitLength_le_iff:
  assumes "0 < t"
  shows "(bitLength t \<le> n) = (t < 2 ^ n)"
proof
  assume le: "bitLength t \<le> n"
  have "t < 2 ^ bitlen t" using bitlen_bounds [OF assms] by simp
  also have "(2::int) ^ bitlen t \<le> 2 ^ n" using le assms by (intro power_increasing) (simp_all add: bitLength_def)
  finally show "t < 2 ^ n" .
next
  assume "t < 2 ^ n"
  with assms have "bitlen t \<le> n" by (rule bitlen_le)
  then show "bitLength t \<le> n" using assms by (simp add: bitLength_def)
qed

text \<open>
  C3. \<open>verifyPOW hash bits\<close> is true exactly when the target \<open>fromCompact bits\<close> is
  strictly positive, has a bit length of at most 256 (it is below \<open>2 ^ 256\<close>), and the
  hash read as a big-endian integer is at most the target.
\<close>

theorem verifyPOW_iff:
  "verifyPOW h b =
     (0 < fromCompact b \<and> bitLength (fromCompact b) \<le> 256 \<and> BN_be h \<le> fromCompact b)
   \<and> verifyPOW h b =
     (0 < fromCompact b \<and> fromCompact b < 2 ^ 256 \<and> BN_be h \<le> fromCompact b)"
proof -
  have 1: "verifyPOW h b =
     (0 < fromCompact b \<and> bitLength (fromCompact b) \<le> 256 \<and> BN_be h \<le> fromCompact b)"
    by (auto simp: verifyPOW_def Let_def)
  have "verifyPOW h b =
     (0 < fromCompact b \<and> fromCompact b < 2 ^ 256 \<and> BN_be h \<le> fromCompact b)"
    unfolding 1 using bitLength_le_iff [of "fromCompact b" 256] by auto
  with 1 show ?thesis by (rule conjI)
qed

text \<open>
  C4. With a parent \<open>p\<close> the chainwork of an entry is \<open>p.chainwork\<close> plus the proof
  \<open>(1 << 256) / (target + 1)\<close>, the proof being zero when the target is zero or
  negative; without a parent (genesis) it is the proof alone. \<open>fromBlock\<close> stores exactly
  this value in the entry it builds.
\<close>

theorem getChainwork_eq:
  "getChainwork e (Some p) =
     chainwork p + (if 0 < fromCompact (bits e) then 2 ^ 256 div (fromCompact (bits e) + 1) else 0)
   \<and> getChainwork e None =
     (if 0 < fromCompact (bits e) then 2 ^ 256 div (fromCompact (bits e) + 1) else 0)
   \<and> chainwork (fromBlock h blk (Some p)) =
     chainwork p + (if 0 < fromCompact (bits blk) then 2 ^ 256 div (fromCompact (bits blk) + 1) else 0)
   \<and> chainwork (fromBlock h blk None) =
     (if 0 < fromCompact (bits blk) then 2 ^ 256 div (fromCompact (bits blk) + 1) else 0)"
  by (auto simp: getChainwork_def getProof_def fromBlock_def MAX_CHAINWORK_def Let_def)

section \<open>The reward schedule\<close>

subsection \<open>Flooring a rounded quotient\<close>

lemma rne_div_cases:
  assumes "0 < b"
  shows "rne_div a b = a div b \<or> (rne_div a b = a div b + 1 \<and> b \<le> 2 * (a mod b))"
  by (auto simp: rne_div_def Let_def)

lemma rne_div_scaled:
  assumes d: "0 < d" and n: "0 \<le> n" and k: "d < 2 * 2 ^ k"
  shows "rne_div (n * 2 ^ k) d div 2 ^ k = n div d"
proof -
  define K :: int where "K = 2 ^ k"
  define q where "q = n div d"
  define r where "r = n mod d"
  define A where "A = (n * K) div d"
  define R where "R = (n * K) mod d"
  have Kpos: "0 < K" by (simp add: K_def)
  have nqr: "n = q * d + r" by (simp add: q_def r_def)
  have r: "0 \<le> r" "r \<le> d - 1" using d pos_mod_bound [of d n] by (simp_all add: r_def)
  have aAR: "n * K = A * d + R" by (simp add: A_def R_def)
  have R: "0 \<le> R" "R < d" using d by (simp_all add: R_def)
  have q0: "0 \<le> q" using n d by (simp add: q_def pos_imp_zdiv_nonneg_iff)
  have rK: "r * K \<le> (d - 1) * K" using r(2) Kpos by (intro mult_right_mono) simp_all
  have low: "q * K \<le> A"
  proof -
    have "(q * K) * d \<le> n * K"
    proof -
      have "0 \<le> r * K" using r(1) Kpos by simp
      then show ?thesis by (simp add: nqr algebra_simps)
    qed
    then have "((q * K) * d) div d \<le> (n * K) div d" by (rule zdiv_mono1) (rule d)
    then show ?thesis using d by (simp add: A_def)
  qed
  have up: "A \<le> (q + 1) * K - 1"
  proof -
    have "r * K \<le> d * K - K" using rK by (simp add: algebra_simps)
    moreover have "n * K = q * d * K + r * K" by (simp add: nqr algebra_simps)
    moreover have "((q + 1) * K) * d = q * d * K + d * K" by (simp add: algebra_simps)
    ultimately have "n * K < ((q + 1) * K) * d" using Kpos by linarith
    then have "A * d + R < ((q + 1) * K) * d" using aAR by simp
    then have "A * d < ((q + 1) * K) * d" using R(1) by linarith
    then have "A < (q + 1) * K" using d by (simp add: mult_less_cancel_right)
    then show ?thesis by simp
  qed
  have rne: "rne_div (n * K) d < (q + 1) * K"
  proof (rule ccontr)
    assume c: "\<not> rne_div (n * K) d < (q + 1) * K"
    from rne_div_cases [OF d, of "n * K"] up c
    have eq: "A = (q + 1) * K - 1" and half: "d \<le> 2 * R" by (auto simp: A_def R_def)
    have "R = n * K - A * d" using aAR by simp
    also have "\<dots> = r * K - K * d + d" by (simp add: eq nqr algebra_simps)
    also have "\<dots> \<le> (d - 1) * K - K * d + d" using rK by simp
    also have "\<dots> = d - K" by (simp add: algebra_simps)
    finally have "R \<le> d - K" .
    with half k show False by (simp add: K_def)
  qed
  have ge: "q * K \<le> rne_div (n * K) d" using rne_div_cases [OF d, of "n * K"] low by (auto simp: A_def)
  define m where "m = rne_div (n * K) d"
  have "m div K = q"
  proof (rule int_div_pos_eq [where r = "m - K * q"])
    show "m = K * q + (m - K * q)" by simp
    show "0 \<le> m - K * q" using ge by (simp add: m_def mult.commute)
    show "m - K * q < K" using rne by (simp add: m_def algebra_simps)
  qed
  then show ?thesis by (simp add: m_def K_def q_def)
qed

lemma scaled_neg: "scaled n d (- int k) = (n * 2 ^ k, d)"
  by (simp add: scaled_def)

lemma double_floor_neg: "double_floor (m, - int k) = m div 2 ^ k"
  by (auto simp: double_floor_def)

lemma toDouble_exponent:
  assumes n: "0 < n" "n < 2 ^ 53" and d: "0 < d"
  shows "\<exists>k. toDouble n d = (rne_div (n * 2 ^ k) d, - int k) \<and> 2 ^ 52 * d \<le> n * 2 ^ k"
proof -
  define k0 where "k0 = 53 + bitlen d - bitlen n"
  have bn: "bitlen n \<le> 53" using n by (rule bitlen_le)
  have bn1: "1 \<le> bitlen n" using n(1) by (simp add: bitlen_pos)
  have bd: "1 \<le> bitlen d" using d by (simp add: bitlen_pos)
  have e0: "int (bitlen n) - int (bitlen d) - 53 = - int k0" using bn by (simp add: k0_def)
  have k0: "1 \<le> k0" using bn bd by (simp add: k0_def)
  have low0: "2 ^ 52 * d \<le> n * 2 ^ k0"
  proof -
    have "2 ^ 52 * d \<le> 2 ^ 52 * 2 ^ bitlen d" using bitlen_bounds [OF d] by simp
    also have "\<dots> = 2 ^ (52 + bitlen d)" by (simp only: power_add)
    also have "52 + bitlen d = (bitlen n - 1) + k0" using bn bn1 by (simp add: k0_def)
    also have "(2::int) ^ ((bitlen n - 1) + k0) = 2 ^ (bitlen n - 1) * 2 ^ k0" by (simp only: power_add)
    also have "\<dots> \<le> n * 2 ^ k0" using bitlen_bounds [OF n(1)] by simp
    finally show ?thesis .
  qed
  show ?thesis
  proof (cases "2 ^ 53 * d \<le> n * 2 ^ k0")
    case True
    have e: "1 - int k0 = - int (k0 - 1)" using k0 by simp
    have "n * 2 ^ k0 = 2 * (n * 2 ^ (k0 - 1))" using k0 by (cases k0) simp_all
    with True have "2 ^ 52 * d \<le> n * 2 ^ (k0 - 1)" by simp
    moreover have "toDouble n d = (rne_div (n * 2 ^ (k0 - 1)) d, - int (k0 - 1))"
      using n(1) True by (simp add: toDouble_def Let_def e0 scaled_neg e)
    ultimately show ?thesis by blast
  next
    case False
    have "toDouble n d = (rne_div (n * 2 ^ k0) d, - int k0)"
      using n(1) False by (simp add: toDouble_def Let_def e0 scaled_neg)
    with low0 show ?thesis by blast
  qed
qed

lemma double_floor_toDouble:
  assumes "0 \<le> n" "n < 2 ^ 53" "0 < d"
  shows "double_floor (toDouble n d) = n div d"
proof (cases "n = 0")
  case True
  then show ?thesis by (simp add: toDouble_def double_floor_def)
next
  case False
  with assms(1) have n: "0 < n" by simp
  from toDouble_exponent [OF n assms(2,3)] obtain k
    where t: "toDouble n d = (rne_div (n * 2 ^ k) d, - int k)" and low: "2 ^ 52 * d \<le> n * 2 ^ k"
    by blast
  have "n * 2 ^ k < 2 ^ 53 * 2 ^ k" using assms(2) by (intro mult_strict_right_mono) simp_all
  then have "n * 2 ^ k < 9007199254740992 * 2 ^ k" by simp
  moreover have "4503599627370496 * d \<le> n * 2 ^ k" using low by simp
  ultimately have dk: "d < 2 * 2 ^ k" by linarith
  have "double_floor (toDouble n d) = rne_div (n * 2 ^ k) d div 2 ^ k"
    by (simp add: t double_floor_neg)
  then show ?thesis using rne_div_scaled [OF assms(3,1) dk] by simp
qed

subsection \<open>The schedule\<close>

lemma floor_div_ints:
  assumes "0 \<le> a" "a < 2 ^ 53" "0 < b"
  shows "Math_floor (number_div (number_of_int a) (number_of_int b)) = number_of_int (a div b)"
  using assms double_floor_toDouble [OF assms]
  by (simp add: number_of_int_def double_of_int_def double_div_def)

lemma getReward_eq:
  assumes h: "is_u32 h" and i: "is_u32 i" "0 < i"
  shows "getReward h i =
         Inr (number_of_int (if 52 \<le> h div i then 0 else drop_bit (nat (h div i)) BASE_REWARD))"
proof -
  have h53: "0 \<le> h" "h < 2 ^ 53" using h by (simp_all add: is_u32_def)
  have halv: "Math_floor (number_div (number_of_int h) (number_of_int i)) = number_of_int (h div i)"
    using h53 i(2) by (rule floor_div_ints)
  have q0: "0 \<le> h div i" using h53(1) i(2) by (simp add: pos_imp_zdiv_nonneg_iff)
  have ge: "number_ge (number_of_int (h div i)) 52 = (52 \<le> h div i)"
    by (simp add: number_of_int_def double_of_int_def)
  have pw: "Math_pow2 (number_of_int (h div i)) = number_of_int (2 ^ nat (h div i))"
    by (simp add: number_of_int_def double_of_int_def double_floor_def)
  have base: "0 \<le> BASE_REWARD" "BASE_REWARD < 2 ^ 53"
    by (simp_all add: BASE_REWARD_def COIN_def EXP_def)
  have fl: "Math_floor (number_div (number_of_int BASE_REWARD) (number_of_int (2 ^ nat (h div i))))
            = number_of_int (BASE_REWARD div 2 ^ nat (h div i))"
    using base by (rule floor_div_ints) simp
  show ?thesis
    unfolding getReward_def Let_def halv ge pw fl
    using h i(1) by (simp add: drop_bit_eq_div)
qed

text \<open>
  C5 (as amended). For every u32 height \<open>h\<close> and every u32 halving interval \<open>i > 0\<close>,
  the reward is the base reward \<open>1000 * COIN\<close> shifted right arithmetically by
  \<open>h div i\<close>, and zero once \<open>h div i\<close> reaches 52. In particular the reward at
  height 0 is \<open>1000 * COIN\<close>, at height \<open>i\<close> it is \<open>500 * COIN\<close>, and at height
  \<open>52 * i\<close> (when that is still a u32 height) it is 0.
\<close>

theorem getReward_schedule:
  "\<forall>h i. is_u32 h \<and> is_u32 i \<and> 0 < i \<longrightarrow>
     getReward h i =
       Inr (number_of_int (if 52 \<le> h div i then 0 else drop_bit (nat (h div i)) (1000 * COIN)))
     \<and> getReward 0 i = Inr (number_of_int (1000 * COIN))
     \<and> getReward i i = Inr (number_of_int (500 * COIN))
     \<and> (is_u32 (52 * i) \<longrightarrow> getReward (52 * i) i = Inr (number_of_int 0))"
proof (intro allI impI)
  fix h i :: int
  assume a: "is_u32 h \<and> is_u32 i \<and> 0 < i"
  then have h: "is_u32 h" and i: "is_u32 i" "0 < i" by simp_all
  have z: "is_u32 0" by (simp add: is_u32_def)
  have 1: "getReward h i =
       Inr (number_of_int (if 52 \<le> h div i then 0 else drop_bit (nat (h div i)) (1000 * COIN)))"
    using getReward_eq [OF h i] by (simp add: BASE_REWARD_def)
  have 2: "getReward 0 i = Inr (number_of_int (1000 * COIN))"
    using getReward_eq [OF z i] by (simp add: BASE_REWARD_def)
  have 3: "getReward i i = Inr (number_of_int (500 * COIN))"
    using getReward_eq [OF i(1) i] i(2) by (simp add: BASE_REWARD_def COIN_def EXP_def drop_bit_eq_div)
  have 4: "is_u32 (52 * i) \<longrightarrow> getReward (52 * i) i = Inr (number_of_int 0)"
  proof
    assume u: "is_u32 (52 * i)"
    show "getReward (52 * i) i = Inr (number_of_int 0)"
      using getReward_eq [OF u i] i(2) by simp
  qed
  from 1 2 3 4 show "getReward h i =
       Inr (number_of_int (if 52 \<le> h div i then 0 else drop_bit (nat (h div i)) (1000 * COIN)))
     \<and> getReward 0 i = Inr (number_of_int (1000 * COIN))
     \<and> getReward i i = Inr (number_of_int (500 * COIN))
     \<and> (is_u32 (52 * i) \<longrightarrow> getReward (52 * i) i = Inr (number_of_int 0))" by blast
qed

theorem getReward_schedule_witness:
  "is_u32 340000 \<and> is_u32 170000 \<and> (0::int) < 170000 \<and> is_u32 (52 * 170000)
   \<and> getReward 340000 170000 = Inr (number_of_int (250 * COIN))
   \<and> getReward 0 170000 = Inr (number_of_int (1000 * COIN))
   \<and> getReward 170000 170000 = Inr (number_of_int (500 * COIN))
   \<and> getReward (52 * 170000) 170000 = Inr (number_of_int 0)"
proof -
  have p: "is_u32 340000 \<and> is_u32 170000 \<and> (0::int) < 170000" by (simp add: is_u32_def)
  have u: "is_u32 (52 * 170000)" by (simp add: is_u32_def)
  have d: "drop_bit (nat (340000 div 170000)) (1000 * COIN) = 250 * COIN"
    by (simp add: COIN_def EXP_def drop_bit_eq_div)
  from getReward_schedule p have
    "getReward 340000 170000 =
       Inr (number_of_int (if (52::int) \<le> 340000 div 170000 then 0
                           else drop_bit (nat (340000 div 170000)) (1000 * COIN)))
     \<and> getReward 0 170000 = Inr (number_of_int (1000 * COIN))
     \<and> getReward 170000 170000 = Inr (number_of_int (500 * COIN))
     \<and> (is_u32 (52 * 170000) \<longrightarrow> getReward (52 * 170000) 170000 = Inr (number_of_int 0))"
    by blast
  with p u d show ?thesis by simp
qed

text \<open>
  C5 as stated ranges over every u32 interval, zero included. With a zero interval the
  quotient \<open>0 / 0\<close> is \<open>NaN\<close>, the comparison with 52 is false, and the reward at height
  0 is \<open>NaN\<close>, not \<open>1000 * COIN\<close>; at any later height the quotient is \<open>Infinity\<close> and
  the reward is 0.
\<close>

theorem getReward_zero_interval:
  "is_u32 0 \<and> getReward 0 0 = Inr NaN \<and> getReward 0 0 \<noteq> Inr (number_of_int (1000 * COIN))"
  by (simp add: getReward_def is_u32_def number_of_int_def double_of_int_def)

lemma getReward_zero_interval_positive_height:
  "getReward 1 0 = Inr (number_of_int 0)"
  by (simp add: getReward_def is_u32_def number_of_int_def double_of_int_def)

section \<open>The serialized chain entry\<close>

subsection \<open>Hex strings\<close>

lemma hexval_nth_all: "list_all (\<lambda>x. hexval (hexchars ! x) = Some x) [0..<16]"
  by code_simp

lemma hexval_hexchars:
  assumes "c \<in> set hexchars"
  shows "\<exists>x < 16. hexval c = Some x \<and> hexchars ! x = c"
proof -
  have len: "length hexchars = 16" by (simp add: hexchars_def)
  from assms obtain x where x: "x < 16" "hexchars ! x = c"
    by (auto simp: in_set_conv_nth len)
  have "hexval (hexchars ! x) = Some x"
    using hexval_nth_all x(1) by (simp add: list_all_iff)
  with x show ?thesis by blast
qed

lemma unat_byte:
  assumes "n < 256"
  shows "unat (of_nat n :: u8) = n"
  using assms by (simp add: unat_of_nat take_bit_nat_eq_self)

lemma byte_of_nibbles:
  assumes "x < 16" "y < 16"
  shows "unat (of_nat (16 * x + y) :: u8) div 16 = x \<and> unat (of_nat (16 * x + y) :: u8) mod 16 = y"
proof -
  have "16 * x + y < 256" using assms by simp
  then have "unat (of_nat (16 * x + y) :: u8) = 16 * x + y" by (rule unat_byte)
  then show ?thesis using assms by simp
qed

lemma toHex_Cons: "toHex (b # bs) = hexchars ! (unat b div 16) # hexchars ! (unat b mod 16) # toHex bs"
  by (simp add: toHex_def)

lemma fromHex_toHex:
  assumes "list_all (\<lambda>c. c \<in> set hexchars) s" "even (length s)"
  shows "\<exists>bs. fromHex s = Some bs \<and> 2 * length bs = length s \<and> toHex bs = s"
  using assms
proof (induction s rule: fromHex.induct)
  case 1
  then show ?case by (simp add: toHex_def)
next
  case (2 c)
  then show ?case by simp
next
  case (3 c d rest)
  from "3.prems" have c: "c \<in> set hexchars" and d: "d \<in> set hexchars"
    and r: "list_all (\<lambda>c. c \<in> set hexchars) rest" "even (length rest)" by simp_all
  from hexval_hexchars [OF c] obtain x where x: "x < 16" "hexval c = Some x" "hexchars ! x = c" by blast
  from hexval_hexchars [OF d] obtain y where y: "y < 16" "hexval d = Some y" "hexchars ! y = d" by blast
  from "3.IH" [OF r] obtain bs where bs: "fromHex rest = Some bs" "2 * length bs = length rest" "toHex bs = rest"
    by blast
  have "fromHex (c # d # rest) = Some (of_nat (16 * x + y) # bs)" by (simp add: x y bs)
  moreover have "toHex (of_nat (16 * x + y) # bs) = c # d # rest"
    using byte_of_nibbles [OF x(1) y(1)] by (simp add: toHex_Cons x y bs)
  moreover have "2 * length (of_nat (16 * x + y) # bs) = length (c # d # rest)" using bs(2) by simp
  ultimately show ?case by blast
qed

lemma is_hash_bytes:
  assumes "is_hash s"
  shows "\<exists>bs. fromHex s = Some bs \<and> length bs = 32 \<and> toHex bs = s"
proof -
  from assms have "list_all (\<lambda>c. c \<in> set hexchars) s" "even (length s)" "length s = 64"
    by (simp_all add: is_hash_def)
  from fromHex_toHex [OF this(1,2)] this(3) show ?thesis by auto
qed

subsection \<open>Numbers as bytes\<close>

lemma length_le_bytes [simp]: "length (le_bytes k n) = k"
  by (induction k arbitrary: n) simp_all

lemma length_be_bytes [simp]: "length (be_bytes k n) = k"
  by (induction k arbitrary: n) simp_all

lemma uint_byte: "uint (of_int n :: u8) = n mod 256"
  by (simp add: uint_word_of_int)

lemma le_int_le_bytes: "le_int (le_bytes k n) = n mod 256 ^ k"
proof (induction k arbitrary: n)
  case 0
  then show ?case by simp
next
  case (Suc k)
  have "n mod 256 + 256 * (n div 256 mod 256 ^ k) = n mod (256 * 256 ^ k)"
    using zmod_zmult2_eq [of "256 ^ k" n 256] by simp
  then show ?case by (simp add: Suc uint_byte)
qed

lemma BN_be_snoc: "BN_be (bs @ [b]) = BN_be bs * 256 + uint b"
  by (simp add: BN_be_def)

lemma BN_be_be_bytes: "BN_be (be_bytes k n) = n mod 256 ^ k"
proof (induction k arbitrary: n)
  case 0
  then show ?case by (simp add: BN_be_def)
next
  case (Suc k)
  have "(n div 256 mod 256 ^ k) * 256 + n mod 256 = n mod (256 * 256 ^ k)"
    using zmod_zmult2_eq [of "256 ^ k" n 256] by simp
  then show ?case by (simp add: BN_be_snoc Suc uint_byte)
qed

lemma byteLength_nonneg_le32:
  assumes "0 \<le> n" "n < 2 ^ 256"
  shows "byteLength n \<le> 32"
proof (cases "n = 0")
  case True
  then show ?thesis by (simp add: byteLength_def bitLength_def bitlen_nonpos)
next
  case False
  with assms(1) have "0 < n" by simp
  then show ?thesis using assms(2) by (rule byteLength_le32)
qed

lemma toArrayLike_be_chainwork:
  assumes "0 \<le> n" "n < 2 ^ 256"
  shows "toArrayLike_be n 32 = Inr (be_bytes 32 n) \<and> BN_be (be_bytes 32 n) = n"
proof -
  have "n mod 256 ^ 32 = n" using assms by simp
  then show ?thesis
    using assms byteLength_nonneg_le32 [OF assms] by (simp add: toArrayLike_be_def BN_be_be_bytes)
qed

subsection \<open>Reading what was written\<close>

lemma readBytes_append:
  "length bs = n \<Longrightarrow> readBytes n (bs @ rest) = Inr (bs, rest)"
  by (simp add: readBytes_def)

lemma readHash_append:
  "length bs = 32 \<Longrightarrow> readHash (bs @ rest) = Inr (toHex bs, rest)"
  by (simp add: readHash_def readBytes_append andThen_def)

lemma readU32_append:
  assumes "is_u32 n"
  shows "readU32 (le_bytes 4 n @ rest) = Inr (n, rest)"
proof -
  have "n mod 256 ^ 4 = n" using assms by (simp add: is_u32_def)
  then show ?thesis by (simp add: readU32_def readBytes_append andThen_def le_int_le_bytes)
qed

lemma readU64_append:
  assumes "0 \<le> n" "n < 2 ^ 53"
  shows "readU64 (le_bytes 8 n @ rest) = Inr (n, rest)"
proof -
  have "n mod 256 ^ 8 = n" using assms by simp
  then show ?thesis using assms by (simp add: readU64_def readBytes_append andThen_def le_int_le_bytes)
qed

lemma is_u32_uint: "is_u32 (uint (w :: u32))"
  using uint_lt2p [of w] by (simp add: is_u32_def)

subsection \<open>The bytes written by \<open>toRaw\<close>\<close>

lemma writeHash_is_hash:
  assumes "is_hash s"
  shows "writeHash s bw = Inr (bw @ the (fromHex s)) \<and> length (the (fromHex s)) = 32
         \<and> toHex (the (fromHex s)) = s"
proof -
  from is_hash_bytes [OF assms] obtain bs where "fromHex s = Some bs" "length bs = 32" "toHex bs = s"
    by blast
  moreover have "length s = 64" using assms by (simp add: is_hash_def)
  ultimately show ?thesis by (simp add: writeHash_def)
qed

lemma toRaw_writes_layout:
  assumes "encodable e"
  shows "toRaw_writes sol_encode e = Inr (concat (layout sol_encode e))"
    and "map length (layout sol_encode e) =
           [32, 4, 4, 32, 32, 32, 32, 8, 4, 20, length (sol_encode (solution e)), 32]"
proof -
  from assms have h: "is_hash (hash e)" "is_hash (prevBlock e)" "is_hash (merkleRoot e)"
      "is_hash (witnessRoot e)" "is_hash (treeRoot e)"
    and ht: "is_u32 (height e)" and t: "0 \<le> time e \<and> time e < 2 ^ 53"
    and n: "length (nonce e) = 20" and cw: "0 \<le> chainwork e" "chainwork e < 2 ^ 256"
    by (simp_all add: encodable_def NONCE_SIZE_def)
  have abs: "\<bar>chainwork e\<bar> = chainwork e" using cw(1) by simp
  show "toRaw_writes sol_encode e = Inr (concat (layout sol_encode e))"
    using ht t toArrayLike_be_chainwork [OF cw]
    by (simp add: toRaw_writes_def layout_def andThen_def writeHash_is_hash [OF h(1)]
        writeHash_is_hash [OF h(2)] writeHash_is_hash [OF h(3)] writeHash_is_hash [OF h(4)]
        writeHash_is_hash [OF h(5)] writeU32_def writeU64_def writeBytes_def is_u32_uint)
  show "map length (layout sol_encode e) =
           [32, 4, 4, 32, 32, 32, 32, 8, 4, 20, length (sol_encode (solution e)), 32]"
    using n by (simp add: layout_def writeHash_is_hash [OF h(1)]
        writeHash_is_hash [OF h(2)] writeHash_is_hash [OF h(3)] writeHash_is_hash [OF h(4)]
        writeHash_is_hash [OF h(5)])
qed

lemma fromRaw_layout:
  assumes enc: "encodable e"
    and sol: "\<And>rest. sol_fromReader (sol_encode (solution e) @ rest) = Inr (solution e, rest)"
  shows "fromRaw sol_fromReader (concat (layout sol_encode e) @ rest) = Inr e"
proof -
  from enc have h: "is_hash (hash e)" "is_hash (prevBlock e)" "is_hash (merkleRoot e)"
      "is_hash (witnessRoot e)" "is_hash (treeRoot e)"
    and ht: "is_u32 (height e)" and t: "0 \<le> time e" "time e < 2 ^ 53"
    and n: "length (nonce e) = NONCE_SIZE" and cw: "0 \<le> chainwork e" "chainwork e < 2 ^ 256"
    by (simp_all add: encodable_def)
  note hs = writeHash_is_hash [OF h(1)] writeHash_is_hash [OF h(2)] writeHash_is_hash [OF h(3)]
    writeHash_is_hash [OF h(4)] writeHash_is_hash [OF h(5)]
  have r1: "readHash (the (fromHex (hash e)) @ r) = Inr (hash e, r)" for r
    using hs(1) readHash_append [of "the (fromHex (hash e))" r] by simp
  have r4: "readHash (the (fromHex (prevBlock e)) @ r) = Inr (prevBlock e, r)" for r
    using hs(2) readHash_append [of "the (fromHex (prevBlock e))" r] by simp
  have r5: "readHash (the (fromHex (merkleRoot e)) @ r) = Inr (merkleRoot e, r)" for r
    using hs(3) readHash_append [of "the (fromHex (merkleRoot e))" r] by simp
  have r6: "readHash (the (fromHex (witnessRoot e)) @ r) = Inr (witnessRoot e, r)" for r
    using hs(4) readHash_append [of "the (fromHex (witnessRoot e))" r] by simp
  have r7: "readHash (the (fromHex (treeRoot e)) @ r) = Inr (treeRoot e, r)" for r
    using hs(5) readHash_append [of "the (fromHex (treeRoot e))" r] by simp
  have r2: "readU32 (le_bytes 4 (height e) @ r) = Inr (height e, r)" for r
    using ht by (rule readU32_append)
  have r3: "readU32 (le_bytes 4 (uint (version e)) @ r) = Inr (uint (version e), r)" for r
    using is_u32_uint by (rule readU32_append)
  have r9: "readU32 (le_bytes 4 (uint (bits e)) @ r) = Inr (uint (bits e), r)" for r
    using is_u32_uint by (rule readU32_append)
  have r8: "readU64 (le_bytes 8 (time e) @ r) = Inr (time e, r)" for r
    using t by (rule readU64_append)
  have r10: "readBytes NONCE_SIZE (nonce e @ r) = Inr (nonce e, r)" for r
    using n by (rule readBytes_append)
  have r12: "readBytes 32 (be_bytes 32 (chainwork e) @ r) = Inr (be_bytes 32 (chainwork e), r)" for r
    by (rule readBytes_append) simp
  have work: "BN_be (be_bytes 32 (chainwork e)) = chainwork e"
    using toArrayLike_be_chainwork [OF cw] by simp
  show ?thesis
    by (simp add: fromRaw_def layout_def andThen_def r1 r2 r3 r4 r5 r6 r7 r8 r9 r10 sol r12 work)
qed

subsection \<open>The solution codec\<close>

lemma read_edges_encode:
  "read_edges (length p) (concat (map (\<lambda>x. le_bytes 4 (uint x)) p) @ rest) = Inr (p, rest)"
proof (induction p)
  case Nil
  then show ?case by simp
next
  case (Cons x p)
  have "readU32 (le_bytes 4 (uint x) @ r) = Inr (uint x, r)" for r
    using is_u32_uint by (rule readU32_append)
  then show ?case using Cons by (simp add: andThen_def)
qed

lemma Solution_roundtrip:
  assumes "length p < 256"
  shows "Solution_fromReader (Solution_encode p @ rest) = Inr (p, rest)"
    and "Solution_getSize p = length (Solution_encode p)"
proof -
  have "unat (of_nat (length p) :: u8) = length p" using assms by (rule unat_byte)
  then show "Solution_fromReader (Solution_encode p @ rest) = Inr (p, rest)"
    by (simp add: Solution_fromReader_def Solution_encode_def readBytes_def andThen_def read_edges_encode)
  have "length (concat (map (\<lambda>x. le_bytes 4 (uint x)) p)) = length p * 4"
    by (induction p) simp_all
  then show "Solution_getSize p = length (Solution_encode p)"
    by (simp add: Solution_getSize_def Solution_encode_def)
qed

subsection \<open>The size of the writer\<close>

text \<open>
  The twelve writes of \<open>toRaw\<close> produce the layout of the spec, and \<open>fromRaw\<close> reads the
  entry back from these bytes, whatever follows them.
\<close>

lemma fromRaw_toRaw_writes:
  assumes "encodable e"
    and "\<And>rest. sol_fromReader (sol_encode (solution e) @ rest) = Inr (solution e, rest)"
  shows "\<exists>raw. toRaw_writes sol_encode e = Inr raw \<and> raw = concat (layout sol_encode e)
           \<and> fromRaw sol_fromReader raw = Inr e"
proof -
  have "fromRaw sol_fromReader (concat (layout sol_encode e) @ []) = Inr e"
    using assms by (rule fromRaw_layout)
  then show ?thesis using toRaw_writes_layout(1) [OF assms(1)] by simp
qed

text \<open>
  The writer is created with \<open>getSize\<close> bytes, which counts a header of
  \<open>HEADER_SIZE = 196\<close> bytes, while the header fields written take 164 bytes: the writes
  fall 32 bytes short of the size and \<open>render\<close> rejects the writer.
\<close>

lemma toRaw_size_mismatch:
  assumes "encodable e"
    and "sol_getSize (solution e) = length (sol_encode (solution e))"
  shows "length (concat (layout sol_encode e)) + 32 = getSize sol_getSize e"
    and "toRaw sol_encode sol_getSize e = Inl AssertionError"
proof -
  have "length (concat (layout sol_encode e)) = sum_list (map length (layout sol_encode e))"
    by (simp add: length_concat)
  also have "\<dots> = 232 + length (sol_encode (solution e))"
    by (simp add: toRaw_writes_layout(2) [OF assms(1)])
  finally have len: "length (concat (layout sol_encode e)) = 232 + length (sol_encode (solution e))" .
  then show "length (concat (layout sol_encode e)) + 32 = getSize sol_getSize e"
    by (simp add: getSize_def HEADER_SIZE_def assms(2))
  show "toRaw sol_encode sol_getSize e = Inl AssertionError"
    by (simp add: toRaw_def toRaw_writes_layout(1) [OF assms(1)] render_def andThen_def len
        getSize_def HEADER_SIZE_def assms(2))
qed

lemma is_hash_NULL_HASH: "is_hash NULL_HASH"
  by (simp add: is_hash_def NULL_HASH_def list_all_iff hexchars_def)

lemma encodable_ChainEntry_new: "encodable (ChainEntry_new s)"
  by (simp add: encodable_def ChainEntry_new_def is_hash_NULL_HASH ZERO_NONCE_def is_u32_def)

text \<open>
  C6. For the entry \<open>new ChainEntry()\<close> (null hashes, zero numbers, zero nonce, empty
  solution, zero chainwork) the writes of \<open>toRaw\<close> produce the 233 bytes of the layout
  \<open>hash:32 | height:u32 | version:u32 | prevBlock:32 | merkleRoot:32 | witnessRoot:32 |
  treeRoot:32 | time:u64 | bits:u32 | nonce:20 | solution | chainwork:u256-be\<close>, from
  which \<open>fromRaw\<close> reads the entry back; but the writer was created with
  \<open>getSize = 265\<close> bytes, and \<open>toRaw\<close> ends in the failed assertion of \<open>render\<close> instead
  of returning these bytes.
\<close>

theorem toRaw_ChainEntry_new:
  "toRaw_writes Solution_encode (ChainEntry_new []) = Inr (concat (layout Solution_encode (ChainEntry_new [])))
   \<and> length (concat (layout Solution_encode (ChainEntry_new []))) = 233
   \<and> fromRaw Solution_fromReader (concat (layout Solution_encode (ChainEntry_new []))) = Inr (ChainEntry_new [])
   \<and> getSize Solution_getSize (ChainEntry_new []) = 265
   \<and> toRaw Solution_encode Solution_getSize (ChainEntry_new []) = Inl AssertionError"
proof -
  let ?e = "ChainEntry_new [] :: u32 list ChainEntry"
  have enc: "encodable ?e" by (rule encodable_ChainEntry_new)
  have s1: "Solution_fromReader (Solution_encode (solution ?e) @ rest) = Inr (solution ?e, rest)" for rest
    using Solution_roundtrip(1) [of "[]" rest] by (simp add: ChainEntry_new_def)
  have s2: "Solution_getSize (solution ?e) = length (Solution_encode (solution ?e))"
    using Solution_roundtrip(2) [of "[]"] by (simp add: ChainEntry_new_def)
  have g: "getSize Solution_getSize ?e = 265"
    by (simp add: getSize_def HEADER_SIZE_def Solution_getSize_def ChainEntry_new_def)
  have "length (concat (layout Solution_encode ?e)) + 32 = getSize Solution_getSize ?e"
    using enc s2 by (rule toRaw_size_mismatch(1))
  with g have l: "length (concat (layout Solution_encode ?e)) = 233" by simp
  have w: "toRaw_writes Solution_encode ?e = Inr (concat (layout Solution_encode ?e))"
    using enc by (rule toRaw_writes_layout(1))
  have "fromRaw Solution_fromReader (concat (layout Solution_encode ?e) @ []) = Inr ?e"
    using enc s1 by (rule fromRaw_layout)
  then have r: "fromRaw Solution_fromReader (concat (layout Solution_encode ?e)) = Inr ?e" by simp
  have f: "toRaw Solution_encode Solution_getSize ?e = Inl AssertionError"
    using enc s2 by (rule toRaw_size_mismatch(2))
  from w l r g f show ?thesis by simp
qed

section \<open>The auction view and the node client\<close>

text \<open>
  C7. \<open>getAuction\<close> returns the cached auction when the view has one for the name hash
  and leaves the view as it is; otherwise it takes the auction from the store and caches
  it; and when the store has none it caches and returns a fresh auction whose
  \<open>nameHash\<close> is the one asked for. In every case the view then holds the returned
  auction under that name hash.
\<close>

theorem getAuction_cases:
  "(\<forall>cache. auctions view (toHex h) = Some cache \<longrightarrow>
       getAuction fresh view db h = (cache, view))
   \<and> (\<forall>a. auctions view (toHex h) = None \<and> db h = Some a \<longrightarrow>
       getAuction fresh view db h = (a, view\<lparr> auctions := (auctions view)(toHex h \<mapsto> a) \<rparr>))
   \<and> (auctions view (toHex h) = None \<and> db h = None \<longrightarrow>
       getAuction fresh view db h =
         (fresh\<lparr> nameHash := h \<rparr>,
          view\<lparr> auctions := (auctions view)(toHex h \<mapsto> fresh\<lparr> nameHash := h \<rparr>) \<rparr>)
       \<and> nameHash (fst (getAuction fresh view db h)) = h)
   \<and> auctions (snd (getAuction fresh view db h)) (toHex h) = Some (fst (getAuction fresh view db h))"
  by (auto simp: getAuction_def Let_def split: option.splits)

theorem getAuction_cases_witness:
  "auctions (View_new :: unit View) (toHex [1, 2]) = None
   \<and> getAuction \<lparr> nameHash = [] \<rparr> View_new (\<lambda>h. None) [1, 2] =
       (\<lparr> nameHash = [1, 2] \<rparr>, \<lparr> auctions = [''0102'' \<mapsto> \<lparr> nameHash = [1, 2] \<rparr>] \<rparr>)
   \<and> getAuction \<lparr> nameHash = [] \<rparr> View_new (\<lambda>h. Some \<lparr> nameHash = [7] \<rparr>) [1, 2] =
       (\<lparr> nameHash = [7] \<rparr>, \<lparr> auctions = [''0102'' \<mapsto> \<lparr> nameHash = [7] \<rparr>] \<rparr>)
   \<and> getAuction \<lparr> nameHash = [] \<rparr> \<lparr> auctions = [''0102'' \<mapsto> \<lparr> nameHash = [9] \<rparr>] \<rparr> (\<lambda>h. None) [1, 2] =
       (\<lparr> nameHash = [9] \<rparr>, \<lparr> auctions = [''0102'' \<mapsto> \<lparr> nameHash = [9] \<rparr>] \<rparr>)"
proof -
  have k: "toHex [1, 2] = ''0102''" by (simp add: toHex_def hexchars_def)
  have e: "auctions (View_new :: unit View) (toHex [1, 2]) = None" by (simp add: View_new_def)
  have c: "auctions \<lparr> auctions = [''0102'' \<mapsto> \<lparr> nameHash = [9] \<rparr>] \<rparr> (toHex [1, 2]) = Some \<lparr> nameHash = [9] \<rparr>"
    by (simp add: k)
  show ?thesis
    using getAuction_cases [of "View_new :: unit View" "[1, 2]" "\<lparr> nameHash = [] \<rparr>" "\<lambda>h. None"]
      getAuction_cases [of "View_new :: unit View" "[1, 2]" "\<lparr> nameHash = [] \<rparr>" "\<lambda>h. Some \<lparr> nameHash = [7] \<rparr>"]
      getAuction_cases [of "\<lparr> auctions = [''0102'' \<mapsto> \<lparr> nameHash = [9] \<rparr>] \<rparr>" "[1, 2]" "\<lparr> nameHash = [] \<rparr>" "\<lambda>h. None"]
      e c
    by (simp add: k View_new_def)
qed

text \<open>
  C9. \<open>getEntry\<close> of the chain client returns null unless the chain has an entry for the
  hash and that entry is on the main chain; in that case it returns the entry.
\<close>

theorem NodeClient_getEntry_iff:
  "(NodeClient_getEntry chain_getEntry chain_isMainChain h = Some e)
     = (chain_getEntry h = Some e \<and> chain_isMainChain e)
   \<and> (NodeClient_getEntry chain_getEntry chain_isMainChain h = None)
     = (\<not> (\<exists>e. chain_getEntry h = Some e \<and> chain_isMainChain e))"
  by (auto simp: NodeClient_getEntry_def split: option.splits)

lemma run_notifications_closed:
  "\<not> opened c \<Longrightarrow> run c (map Notify evs @ rest) = run c rest"
proof (induction evs)
  case Nil
  then show ?case by simp
next
  case (Cons ev evs)
  have "on_node_event c ev = []" using Cons.prems by (cases ev) simp_all
  then show ?case using Cons by simp
qed

lemma run_append:
  "run c (xs @ ys) = (let (c', out) = run c xs; (c'', outs) = run c' ys in (c'', out @ outs))"
  by (induction xs arbitrary: c) (auto simp: Let_def split: prod.splits)

text \<open>
  C10. While the client is not opened, a notification from the node (connect, disconnect,
  tx or reset) emits nothing to the subscribers. The client is not opened when it is
  constructed, and it is not opened when \<open>close\<close> has returned, so every notification
  that arrives before \<open>open\<close> or after \<open>close\<close> is dropped: notifications that arrive at
  a point of a history where the client is not opened leave the emitted events as they
  are without them.
\<close>

theorem NodeClient_drops_when_closed:
  "(\<forall>ev :: ('e, 't) node_event. \<not> opened c \<longrightarrow> on_node_event c ev = [])
   \<and> \<not> opened NodeClient_new
   \<and> (\<forall>c' (out :: ('e, 't) client_event list).
         NodeClient_close c = Inr (c', out) \<longrightarrow> \<not> opened c' \<and> out = [Disconnect])
   \<and> (\<forall>(evs :: ('e, 't) node_event list) rest.
         \<not> opened c \<longrightarrow> run c (map Notify evs @ rest) = run c rest)
   \<and> (\<forall>(evs :: ('e, 't) node_event list) rest.
         run NodeClient_new (map Notify evs @ rest) = run NodeClient_new rest)
   \<and> (\<forall>(evs :: ('e, 't) node_event list) c' (out :: ('e, 't) client_event list).
         NodeClient_close c = Inr (c', out) \<longrightarrow> run c' (map Notify evs) = (c', []))
   \<and> (\<forall>before (evs :: ('e, 't) node_event list) after.
         \<not> opened (fst (run c before)) \<longrightarrow>
           run c (before @ map Notify evs @ after) = run c (before @ after))"
proof -
  have 1: "\<not> opened c \<longrightarrow> on_node_event c ev = []" for c :: NodeClient and ev :: "('e, 't) node_event"
    by (cases ev) simp_all
  have 2: "\<not> opened NodeClient_new" by (simp add: NodeClient_new_def)
  have 3: "NodeClient_close c = Inr (c', out) \<longrightarrow> \<not> opened c' \<and> out = [Disconnect]"
    for c c' :: NodeClient and out :: "('e, 't) client_event list"
    by (auto simp: NodeClient_close_def split: if_splits)
  have 4: "\<not> opened c \<longrightarrow> run c (map Notify evs @ rest) = run c rest"
    for c :: NodeClient and evs :: "('e, 't) node_event list" and rest
    using run_notifications_closed by blast
  have 5: "run NodeClient_new (map Notify evs @ rest) = run NodeClient_new rest"
    for evs :: "('e, 't) node_event list" and rest
    using 2 4 by blast
  have 6: "NodeClient_close c = Inr (c', out) \<longrightarrow> run c' (map Notify evs) = (c', [])"
    for c c' :: NodeClient and out :: "('e, 't) client_event list" and evs :: "('e, 't) node_event list"
  proof
    assume "NodeClient_close c = Inr (c', out)"
    with 3 have "\<not> opened c'" by blast
    then show "run c' (map Notify evs) = (c', [])"
      using run_notifications_closed [of c' evs "[]"] by simp
  qed
  have 7: "\<not> opened (fst (run c before)) \<longrightarrow>
           run c (before @ map Notify evs @ after) = run c (before @ after)"
    for c :: NodeClient and evs :: "('e, 't) node_event list" and before after
  proof
    assume n: "\<not> opened (fst (run c before))"
    obtain c1 out1 where r: "run c before = (c1, out1)" by (cases "run c before")
    with n have "run c1 (map Notify evs @ after) = run c1 after"
      using run_notifications_closed [of c1 evs after] by simp
    then show "run c (before @ map Notify evs @ after) = run c (before @ after)"
      by (simp add: run_append [of c before] r)
  qed
  show ?thesis
    apply (intro conjI allI)
    using 1 apply blast
    using 2 apply blast
    using 3 apply blast
    using 4 apply blast
    using 5 apply blast
    using 6 apply blast
    using 7 apply blast
    done
qed

theorem NodeClient_drops_when_closed_witness:
  "\<not> opened NodeClient_new
   \<and> on_node_event NodeClient_new (Node_tx (5::nat) :: (nat, nat) node_event) = []
   \<and> NodeClient_close \<lparr> opened = True \<rparr> = Inr (\<lparr> opened = False \<rparr>, [Disconnect :: (nat, nat) client_event])
   \<and> run NodeClient_new [Notify (Node_connect (1::nat) [2::nat]), Open, Notify (Node_tx 3), Close, Notify (Node_reset 4)]
       = (\<lparr> opened = False \<rparr>, [Connect, Tx 3, Disconnect])
   \<and> \<not> opened (fst (run NodeClient_new [Open, Notify (Node_tx (3::nat)) :: (nat, nat) action, Close]))
   \<and> run NodeClient_new ([Open, Notify (Node_tx (3::nat)), Close] @ map Notify [Node_reset (4::nat)] @ [])
       = run NodeClient_new ([Open, Notify (Node_tx 3), Close] @ [])"
proof -
  have a: "\<not> opened NodeClient_new" by (simp add: NodeClient_new_def)
  have b: "NodeClient_close \<lparr> opened = True \<rparr> = Inr (\<lparr> opened = False \<rparr>, [Disconnect :: (nat, nat) client_event])"
    by (simp add: NodeClient_close_def)
  from NodeClient_drops_when_closed [of NodeClient_new] a
  have c: "on_node_event NodeClient_new (Node_tx (5::nat) :: (nat, nat) node_event) = []"
    and d: "run NodeClient_new (map Notify [Node_connect (1::nat) [2::nat]] @ [Open, Notify (Node_tx 3), Close, Notify (Node_reset 4)])
            = run NodeClient_new [Open, Notify (Node_tx 3), Close, Notify (Node_reset 4)]"
    by blast+
  have e: "run NodeClient_new [Open, Notify (Node_tx (3::nat)), Close, Notify (Node_reset (4::nat))]
           = (\<lparr> opened = False \<rparr>, [Connect, Tx 3, Disconnect])"
    by (simp add: NodeClient_new_def NodeClient_open_def NodeClient_close_def)
  have f: "\<not> opened (fst (run NodeClient_new [Open, Notify (Node_tx (3::nat)) :: (nat, nat) action, Close]))"
    by (simp add: NodeClient_new_def NodeClient_open_def NodeClient_close_def)
  from NodeClient_drops_when_closed [of NodeClient_new] f
  have g: "run NodeClient_new ([Open, Notify (Node_tx (3::nat)), Close] @ map Notify [Node_reset (4::nat)] @ [])
       = run NodeClient_new ([Open, Notify (Node_tx 3), Close] @ [])"
    by blast
  from a b c d e f g show ?thesis by simp
qed

section \<open>The claimer of the genesis block\<close>

lemma push_claim_eq:
  "push_claim (Address_fromHash k 0) t name =
     t\<lparr> tx_outputs := tx_outputs t @
        [\<lparr> out_value = 0, out_address = \<lparr> addr_version = 0, addr_hash = k \<rparr>,
           out_covenant = \<lparr> cov_type = CLAIM, cov_items = [ascii (butlast name)] \<rparr> \<rparr>] \<rparr>"
  by (simp add: push_claim_def Output_new_def Covenant_new_def Address_fromHash_def slice_0_m1_def)

lemma foldl_push_claim:
  "foldl (push_claim (Address_fromHash k 0)) t ns =
     t\<lparr> tx_outputs := tx_outputs t @
        map (\<lambda>name. \<lparr> out_value = 0, out_address = \<lparr> addr_version = 0, addr_hash = k \<rparr>,
                       out_covenant = \<lparr> cov_type = CLAIM, cov_items = [ascii (butlast name)] \<rparr> \<rparr>) ns \<rparr>"
  by (induction ns arbitrary: t) (simp_all add: push_claim_eq)

text \<open>
  C8. The claimer has exactly one input, spending output 0 of the coinbase; its first
  output pays \<open>GENESIS_REWARD\<close> to the genesis address; the outputs after it are one
  \<open>CLAIM\<close> output per root name, in the sorted order of the names, each with the value
  0, the claimant address and, as its only covenant item, the name without its last
  character, which for a name written with its trailing dot is the name without the dot.
\<close>

theorem claimer_shape:
  "tx_inputs (createGenesisBlock_claimer h k root_keys) =
      [\<lparr> in_prevout = \<lparr> prev_hash = h, prev_index = 0 \<rparr>, in_witness = [], in_sequence = 0xffffffff \<rparr>]
   \<and> tx_outputs (createGenesisBlock_claimer h k root_keys) =
      \<lparr> out_value = GENESIS_REWARD,
        out_address = \<lparr> addr_version = 0, addr_hash = GENESIS_KEY \<rparr>,
        out_covenant = \<lparr> cov_type = NONE, cov_items = [] \<rparr> \<rparr>
      # map (\<lambda>name. \<lparr> out_value = 0,
                       out_address = \<lparr> addr_version = 0, addr_hash = k \<rparr>,
                       out_covenant = \<lparr> cov_type = CLAIM, cov_items = [ascii (butlast name)] \<rparr> \<rparr>)
            (names root_keys)
   \<and> sorted (names root_keys)
   \<and> mset (names root_keys) = mset root_keys
   \<and> (\<forall>j s. j < length root_keys \<and> names root_keys ! j = s @ ''.'' \<longrightarrow>
        tx_outputs (createGenesisBlock_claimer h k root_keys) ! (j + 1) =
          \<lparr> out_value = 0,
            out_address = \<lparr> addr_version = 0, addr_hash = k \<rparr>,
            out_covenant = \<lparr> cov_type = CLAIM, cov_items = [ascii s] \<rparr> \<rparr>)"
proof -
  have c: "createGenesisBlock_claimer h k root_keys =
      \<lparr> tx_version = 0,
        tx_inputs = [\<lparr> in_prevout = \<lparr> prev_hash = h, prev_index = 0 \<rparr>, in_witness = [],
                       in_sequence = 0xffffffff \<rparr>],
        tx_outputs = [Output_new\<lparr> out_value := GENESIS_REWARD, out_address := Address_fromHash GENESIS_KEY 0 \<rparr>]
          @ map (\<lambda>name. \<lparr> out_value = 0,
                       out_address = \<lparr> addr_version = 0, addr_hash = k \<rparr>,
                       out_covenant = \<lparr> cov_type = CLAIM, cov_items = [ascii (butlast name)] \<rparr> \<rparr>)
            (names root_keys),
        tx_locktime = 0 \<rparr>"
    by (simp add: createGenesisBlock_claimer_def Let_def foldl_push_claim)
  have outs: "tx_outputs (createGenesisBlock_claimer h k root_keys) =
      \<lparr> out_value = GENESIS_REWARD,
        out_address = \<lparr> addr_version = 0, addr_hash = GENESIS_KEY \<rparr>,
        out_covenant = \<lparr> cov_type = NONE, cov_items = [] \<rparr> \<rparr>
      # map (\<lambda>name. \<lparr> out_value = 0,
                       out_address = \<lparr> addr_version = 0, addr_hash = k \<rparr>,
                       out_covenant = \<lparr> cov_type = CLAIM, cov_items = [ascii (butlast name)] \<rparr> \<rparr>)
            (names root_keys)"
    unfolding c by (simp add: Output_new_def Covenant_new_def Address_fromHash_def)
  have ins: "tx_inputs (createGenesisBlock_claimer h k root_keys) =
      [\<lparr> in_prevout = \<lparr> prev_hash = h, prev_index = 0 \<rparr>, in_witness = [], in_sequence = 0xffffffff \<rparr>]"
    unfolding c by simp
  have srt: "sorted (names root_keys)" "mset (names root_keys) = mset root_keys"
    by (simp_all add: names_def)
  have len: "length (names root_keys) = length root_keys" by (simp add: names_def)
  have dots: "tx_outputs (createGenesisBlock_claimer h k root_keys) ! (j + 1) =
          \<lparr> out_value = 0,
            out_address = \<lparr> addr_version = 0, addr_hash = k \<rparr>,
            out_covenant = \<lparr> cov_type = CLAIM, cov_items = [ascii s] \<rparr> \<rparr>"
    if "j < length root_keys \<and> names root_keys ! j = s @ ''.''" for j s
    unfolding outs using that len by simp
  from ins outs srt dots show ?thesis by blast
qed

theorem claimer_shape_witness:
  "names [''org.'', ''com.''] = [''com.'', ''org.'']
   \<and> tx_inputs (createGenesisBlock_claimer ''ab'' [1, 2] [''org.'', ''com.'']) =
      [\<lparr> in_prevout = \<lparr> prev_hash = ''ab'', prev_index = 0 \<rparr>, in_witness = [], in_sequence = 0xffffffff \<rparr>]
   \<and> tx_outputs (createGenesisBlock_claimer ''ab'' [1, 2] [''org.'', ''com.'']) ! (0 + 1) =
      \<lparr> out_value = 0, out_address = \<lparr> addr_version = 0, addr_hash = [1, 2] \<rparr>,
        out_covenant = \<lparr> cov_type = CLAIM, cov_items = [ascii ''com''] \<rparr> \<rparr>
   \<and> tx_outputs (createGenesisBlock_claimer ''ab'' [1, 2] [''org.'', ''com.'']) ! (1 + 1) =
      \<lparr> out_value = 0, out_address = \<lparr> addr_version = 0, addr_hash = [1, 2] \<rparr>,
        out_covenant = \<lparr> cov_type = CLAIM, cov_items = [ascii ''org''] \<rparr> \<rparr>
   \<and> length (tx_outputs (createGenesisBlock_claimer ''ab'' [1, 2] [''org.'', ''com.''])) = 3"
proof -
  have n: "names [''org.'', ''com.''] = [''com.'', ''org.'']" by code_simp
  have p0: "(0::nat) < length [''org.'', ''com.''] \<and> names [''org.'', ''com.''] ! 0 = ''com'' @ ''.''"
    by (simp add: n)
  have p1: "(1::nat) < length [''org.'', ''com.''] \<and> names [''org.'', ''com.''] ! 1 = ''org'' @ ''.''"
    by (simp add: n)
  note t = claimer_shape [of "''ab''" "[1, 2]" "[''org.'', ''com.'']"]
  from t have i: "tx_inputs (createGenesisBlock_claimer ''ab'' [1, 2] [''org.'', ''com.'']) =
      [\<lparr> in_prevout = \<lparr> prev_hash = ''ab'', prev_index = 0 \<rparr>, in_witness = [], in_sequence = 0xffffffff \<rparr>]"
    by blast
  from t p0 have o0: "tx_outputs (createGenesisBlock_claimer ''ab'' [1, 2] [''org.'', ''com.'']) ! (0 + 1) =
      \<lparr> out_value = 0, out_address = \<lparr> addr_version = 0, addr_hash = [1, 2] \<rparr>,
        out_covenant = \<lparr> cov_type = CLAIM, cov_items = [ascii ''com''] \<rparr> \<rparr>"
    by blast
  from t p1 have o1: "tx_outputs (createGenesisBlock_claimer ''ab'' [1, 2] [''org.'', ''com.'']) ! (1 + 1) =
      \<lparr> out_value = 0, out_address = \<lparr> addr_version = 0, addr_hash = [1, 2] \<rparr>,
        out_covenant = \<lparr> cov_type = CLAIM, cov_items = [ascii ''org''] \<rparr> \<rparr>"
    by blast
  from t have "length (tx_outputs (createGenesisBlock_claimer ''ab'' [1, 2] [''org.'', ''com.''])) = 
      Suc (length (names [''org.'', ''com.'']))" by simp
  then have l: "length (tx_outputs (createGenesisBlock_claimer ''ab'' [1, 2] [''org.'', ''com.''])) = 3"
    by (simp add: n)
  from n i o0 o1 l show ?thesis by blast
qed

text \<open>
  The order is the order of the names as they are keyed, with their dots: a name that is
  a proper prefix of another sorts after it when the next character is below the dot.
\<close>

lemma names_order_with_dots:
  "names [''co.'', ''co-m.''] = [''co-m.'', ''co.'']"
  by code_simp


end
